theory Spec2Isabelle
  imports Main "HOL-Library.Sublist"
begin

section \<open>Python strings\<close>

text \<open>
  Strings are character lists. The operations below are the Python built-ins the
  sources call: \<^verbatim>\<open>p in s\<close>, \<^verbatim>\<open>s.replace(p, v)\<close>, \<^verbatim>\<open>sep.join(xs)\<close>,
  \<^verbatim>\<open>s.split(sep)\<close> and \<^verbatim>\<open>s.lower()\<close>.
\<close>

fun py_in :: "string \<Rightarrow> string \<Rightarrow> bool" where
  "py_in p [] = (p = [])"
| "py_in p (c # s) = (prefix p (c # s) \<or> py_in p s)"

text \<open>
  \<^verbatim>\<open>str.replace\<close> scans from the left and replaces non-overlapping occurrences; the
  replaced text is not scanned again. An empty pattern matches between all characters.
\<close>

fun repl :: "string \<Rightarrow> string \<Rightarrow> string \<Rightarrow> string" where
  "repl p v [] = []"
| "repl p v (c # s) =
     (if p \<noteq> [] \<and> prefix p (c # s) then v @ repl p v (drop (length p) (c # s))
      else c # repl p v s)"

definition py_replace :: "string \<Rightarrow> string \<Rightarrow> string \<Rightarrow> string" where
  "py_replace p v s = (if p = [] then v @ concat (map (\<lambda>c. c # v) s) else repl p v s)"

fun py_join :: "string \<Rightarrow> string list \<Rightarrow> string" where
  "py_join sep [] = []"
| "py_join sep [x] = x"
| "py_join sep (x # y # ys) = x @ sep @ py_join sep (y # ys)"

text \<open>\<^verbatim>\<open>s.split(c)\<close> for a one-character separator: the fields between the separators.\<close>

fun py_split :: "char \<Rightarrow> string \<Rightarrow> string list" where
  "py_split sep [] = [[]]"
| "py_split sep (c # s) =
     (if c = sep then [] # py_split sep s
      else (case py_split sep s of
              [] \<Rightarrow> [[c]]
            | f # fs \<Rightarrow> (c # f) # fs))"

definition char_lower :: "char \<Rightarrow> char" where
  "char_lower c =
     (if (65::nat) \<le> of_char c \<and> of_char c \<le> (90::nat)
      then char_of (of_char c + (32::nat)) else c)"

definition py_lower :: "string \<Rightarrow> string" where
  "py_lower s = map char_lower s"

section \<open>The placeholder pattern\<close>

text \<open>
  \<^verbatim>\<open>PLACEHOLDER_PATTERN = r'\{\{([a-zA-Z0-9_]+)\}\}'\<close>. A match at the start of \<open>s\<close> is
  two opening braces, the longest non-empty run of name characters, and two closing
  braces; giving characters back never helps, because the character after a shorter run
  is a name character and not a brace. \<open>findall\<close> returns the captured names of the
  non-overlapping matches from left to right, and \<open>pattern_search\<close> tells whether
  there is a match at all.
\<close>

definition name_char :: "char \<Rightarrow> bool" where
  "name_char c =
     (c \<in> set ''abcdefghijklmnopqrstuvwxyzABCDEFGHIJKLMNOPQRSTUVWXYZ0123456789_'')"

definition is_name :: "string \<Rightarrow> bool" where
  "is_name n = (n \<noteq> [] \<and> list_all name_char n)"

text \<open>The f-string \<^verbatim>\<open>f"{{{{{key}}}}}"\<close>: the key between two pairs of braces.\<close>

definition token :: "string \<Rightarrow> string" where
  "token key = ''{{'' @ key @ ''}}''"

definition match_here :: "string \<Rightarrow> (string \<times> string) option" where
  "match_here s =
     (if prefix ''{{'' s then
        (let r = drop 2 s; n = takeWhile name_char r; r' = dropWhile name_char r
         in if n \<noteq> [] \<and> prefix ''}}'' r' then Some (n, drop 2 r') else None)
      else None)"

function findall :: "string \<Rightarrow> string list" where
  "findall s =
     (if s = [] then []
      else case match_here s of
             Some (n, r) \<Rightarrow> n # findall r
           | None \<Rightarrow> findall (tl s))"
  by pat_completeness auto
termination
proof (relation "measure length")
  show "wf (measure length)" by simp
next
  fix s :: string
  assume "s \<noteq> []"
  then show "(tl s, s) \<in> measure length" by (cases s) simp_all
next
  fix s :: string and x2 n r
  assume "match_here s = Some x2" and "(n, r) = x2"
  then have m: "match_here s = Some (n, r)" by simp
  then have p: "prefix ''{{'' s"
    and r: "r = drop 2 (dropWhile name_char (drop 2 s))"
    by (auto simp: match_here_def Let_def split: if_splits)
  from p have "2 \<le> length s" by (auto simp: prefix_def)
  moreover have "length r \<le> length (drop 2 s)"
    unfolding r using length_dropWhile_le [of name_char "drop 2 s"] by simp
  ultimately show "(r, s) \<in> measure length" by simp
qed

declare findall.simps [simp del]

definition pattern_search :: "string \<Rightarrow> bool" where
  "pattern_search s = (findall s \<noteq> [])"

section \<open>The document model\<close>

text \<open>
  The python-docx objects the sources touch. A run is a text with its character
  formatting; a paragraph has a style, an alignment and runs; a body, a cell, a header
  and a footer hold paragraphs and tables. A table element holds its rows among other
  children (its properties and its grid), in document order.
\<close>

record run_format =
  bold :: "bool option"
  italic :: "bool option"
  underline :: "bool option"
  font_name :: "string option"
  font_size :: "nat option"
  color :: "string option"

definition plain_format :: run_format where
  "plain_format = \<lparr>bold = None, italic = None, underline = None, font_name = None,
     font_size = None, color = None\<rparr>"

record run =
  run_text :: string
  run_fmt :: run_format

record para =
  style :: string
  alignment :: "string option"
  runs :: "run list"

datatype block = Paragraph para | Table "tbl_child list"
  and tbl_child = NonRow string | Tr "block list list"

type_synonym cell = "block list"
type_synonym row = "cell list"
type_synonym tbl = "tbl_child list"

text \<open>\<^verbatim>\<open>container.paragraphs\<close> and \<^verbatim>\<open>container.tables\<close>: the direct children only.\<close>

fun paragraphs_of :: "block list \<Rightarrow> para list" where
  "paragraphs_of [] = []"
| "paragraphs_of (Paragraph p # bs) = p # paragraphs_of bs"
| "paragraphs_of (Table t # bs) = paragraphs_of bs"

fun tables_of :: "block list \<Rightarrow> tbl list" where
  "tables_of [] = []"
| "tables_of (Paragraph p # bs) = tables_of bs"
| "tables_of (Table t # bs) = t # tables_of bs"

text \<open>\<^verbatim>\<open>tbl.tr_lst\<close> and \<^verbatim>\<open>table.rows\<close>: the row children of the table element.\<close>

fun tr_lst :: "tbl \<Rightarrow> row list" where
  "tr_lst [] = []"
| "tr_lst (NonRow x # ch) = tr_lst ch"
| "tr_lst (Tr r # ch) = r # tr_lst ch"

text \<open>\<^verbatim>\<open>para.text\<close> joins the run texts; \<^verbatim>\<open>cell.text\<close> joins the paragraph texts
  with newlines.\<close>

definition para_text :: "para \<Rightarrow> string" where
  "para_text p = concat (map run_text (runs p))"

definition cell_text :: "cell \<Rightarrow> string" where
  "cell_text c = py_join [CHR 0x0A] (map para_text (paragraphs_of c))"

text \<open>
  \<^verbatim>\<open>para.clear()\<close> followed by \<^verbatim>\<open>para.add_run(t)\<close>, which is also what the setter
  \<^verbatim>\<open>para.text = t\<close> does: the paragraph formatting stays, the runs are replaced by one
  run without character formatting.
\<close>

definition set_para_text :: "para \<Rightarrow> string \<Rightarrow> para" where
  "set_para_text p t = p\<lparr>runs := [\<lparr>run_text = t, run_fmt = plain_format\<rparr>]\<rparr>"

text \<open>
  Relationships, drawings and media. A relationship of a part points to a media part
  of the package by its part name, or outside the package; image parts are shared
  objects of the package, so the media store is a function from part names. A drawing
  element refers to a relationship id and carries the geometry.
\<close>

datatype rel_target = Internal string | External string

record relationship =
  rel_id :: string
  reltype :: string
  target :: rel_target

record drawing =
  embed :: string
  is_inline :: bool
  extent_cx :: "int option"
  extent_cy :: "int option"
  pos_offset :: "(int \<times> int) option"
  wrap :: string

record image_part =
  blob :: string
  content_type :: string

record hf_part =
  hf_blocks :: "block list"
  hf_rels :: "relationship list"
  hf_drawings :: "drawing list"

record doc_section =
  header :: "hf_part option"
  footer :: "hf_part option"

record document =
  body :: "block list"
  body_rels :: "relationship list"
  body_drawings :: "drawing list"
  sections :: "doc_section list"
  media :: "string \<Rightarrow> image_part"

datatype py_error = MissingData "string set" | ValueError | IndexError | OSError | AttributeError

section \<open>PlaceholderEngine (src/core/placeholder\_engine.py)\<close>

text \<open>
  A loop that mutates its elements in place and adds to a counter is a map that also
  sums what each element contributes.
\<close>

definition map_count :: "('a \<Rightarrow> 'a \<times> nat) \<Rightarrow> 'a list \<Rightarrow> 'a list \<times> nat" where
  "map_count f xs = (map (\<lambda>x. fst (f x)) xs, sum_list (map (\<lambda>x. snd (f x)) xs))"

definition on_paragraphs :: "(para \<Rightarrow> para \<times> nat) \<Rightarrow> block list \<Rightarrow> block list \<times> nat" where
  "on_paragraphs f bs =
     map_count (\<lambda>b. case b of
                       Paragraph p \<Rightarrow> (Paragraph (fst (f p)), snd (f p))
                     | Table t \<Rightarrow> (Table t, 0)) bs"

definition on_tables :: "(tbl \<Rightarrow> tbl \<times> nat) \<Rightarrow> block list \<Rightarrow> block list \<times> nat" where
  "on_tables f bs =
     map_count (\<lambda>b. case b of
                       Paragraph p \<Rightarrow> (Paragraph p, 0)
                     | Table t \<Rightarrow> (Table (fst (f t)), snd (f t))) bs"

definition on_rows :: "(row \<Rightarrow> row \<times> nat) \<Rightarrow> tbl \<Rightarrow> tbl \<times> nat" where
  "on_rows f ch =
     map_count (\<lambda>c. case c of
                       NonRow x \<Rightarrow> (NonRow x, 0)
                     | Tr r \<Rightarrow> (Tr (fst (f r)), snd (f r))) ch"

text \<open>\<^verbatim>\<open>find_all_placeholders\<close>: the names found in the texts of the body paragraphs, of
  the paragraphs of the cells of the body tables, and of the header and footer
  paragraphs of every section.\<close>

definition placeholders_in :: "para list \<Rightarrow> string list" where
  "placeholders_in ps = concat (map (\<lambda>p. findall (para_text p)) ps)"

definition table_cell_paragraphs :: "tbl \<Rightarrow> para list" where
  "table_cell_paragraphs t =
     concat (map (\<lambda>row. concat (map paragraphs_of row)) (tr_lst t))"

definition hf_paragraphs :: "hf_part option \<Rightarrow> para list" where
  "hf_paragraphs h = (case h of None \<Rightarrow> [] | Some part \<Rightarrow> paragraphs_of (hf_blocks part))"

definition scanned_paragraphs :: "document \<Rightarrow> para list" where
  "scanned_paragraphs d =
     paragraphs_of (body d)
     @ concat (map table_cell_paragraphs (tables_of (body d)))
     @ concat (map (\<lambda>s. hf_paragraphs (header s) @ hf_paragraphs (footer s)) (sections d))"

definition find_all_placeholders :: "document \<Rightarrow> string set" where
  "find_all_placeholders d = set (placeholders_in (scanned_paragraphs d))"

text \<open>\<^verbatim>\<open>validate_data\<close>: the names without data and the data without a name.\<close>

definition validate_data :: "document \<Rightarrow> (string \<times> string) list \<Rightarrow> string set \<times> string set" where
  "validate_data d data =
     (find_all_placeholders d - set (map fst data),
      set (map fst data) - find_all_placeholders d)"

text \<open>
  The loop over \<^verbatim>\<open>data.items()\<close> in \<^verbatim>\<open>_replace_in_runs\<close> and in the non-preserving
  branch of \<^verbatim>\<open>_replace_in_paragraphs\<close>: for each key in the order of the mapping, if its
  token is in the current text, all its occurrences are replaced and the count goes up
  by one.
\<close>

fun replace_keys :: "(string \<times> string) list \<Rightarrow> string \<Rightarrow> string \<times> nat" where
  "replace_keys [] t = (t, 0)"
| "replace_keys ((key, val) # rest) t =
     (if py_in (token key) t
      then (fst (replace_keys rest (py_replace (token key) val t)),
            snd (replace_keys rest (py_replace (token key) val t)) + 1)
      else replace_keys rest t)"

definition replace_in_run :: "(string \<times> string) list \<Rightarrow> run \<Rightarrow> run \<times> nat" where
  "replace_in_run data r =
     (if \<not> pattern_search (run_text r) then (r, 0)
      else (r\<lparr>run_text := fst (replace_keys data (run_text r))\<rparr>,
            snd (replace_keys data (run_text r))))"

definition replace_in_runs :: "para \<Rightarrow> (string \<times> string) list \<Rightarrow> para \<times> nat" where
  "replace_in_runs p data =
     (p\<lparr>runs := fst (map_count (replace_in_run data) (runs p))\<rparr>,
      snd (map_count (replace_in_run data) (runs p)))"

definition replace_in_paragraph :: "(string \<times> string) list \<Rightarrow> bool \<Rightarrow> para \<Rightarrow> para \<times> nat" where
  "replace_in_paragraph data preserve_format p =
     (if \<not> pattern_search (para_text p) then (p, 0)
      else if preserve_format then replace_in_runs p data
      else (set_para_text p (fst (replace_keys data (para_text p))),
            snd (replace_keys data (para_text p))))"

definition replace_in_paragraphs ::
  "block list \<Rightarrow> (string \<times> string) list \<Rightarrow> bool \<Rightarrow> block list \<times> nat" where
  "replace_in_paragraphs bs data preserve_format =
     on_paragraphs (replace_in_paragraph data preserve_format) bs"

definition replace_in_table :: "tbl \<Rightarrow> (string \<times> string) list \<Rightarrow> bool \<Rightarrow> tbl \<times> nat" where
  "replace_in_table t data preserve_format =
     on_rows (map_count (\<lambda>cell. replace_in_paragraphs cell data preserve_format)) t"

definition replace_in_hf ::
  "(string \<times> string) list \<Rightarrow> bool \<Rightarrow> hf_part option \<Rightarrow> hf_part option \<times> nat" where
  "replace_in_hf data preserve_format h =
     (case h of
        None \<Rightarrow> (None, 0)
      | Some part \<Rightarrow>
          (Some (part\<lparr>hf_blocks := fst (replace_in_paragraphs (hf_blocks part) data preserve_format)\<rparr>),
           snd (replace_in_paragraphs (hf_blocks part) data preserve_format)))"

definition replace_in_section ::
  "(string \<times> string) list \<Rightarrow> bool \<Rightarrow> doc_section \<Rightarrow> doc_section \<times> nat" where
  "replace_in_section data preserve_format s =
     (s\<lparr>header := fst (replace_in_hf data preserve_format (header s)),
        footer := fst (replace_in_hf data preserve_format (footer s))\<rparr>,
      snd (replace_in_hf data preserve_format (header s))
      + snd (replace_in_hf data preserve_format (footer s)))"

text \<open>
  \<^verbatim>\<open>replace_all\<close> returns the document after the call together with the raised error
  or the returned count. The strict check comes before the first mutation.
\<close>

definition replace_all ::
  "document \<Rightarrow> (string \<times> string) list \<Rightarrow> bool \<Rightarrow> bool \<Rightarrow> document \<times> (py_error + nat)" where
  "replace_all d data strict preserve_format =
     (let missing = fst (validate_data d data) in
      if strict \<and> missing \<noteq> {} then (d, Inl (MissingData missing))
      else
        (let b1 = replace_in_paragraphs (body d) data preserve_format;
             b2 = on_tables (\<lambda>t. replace_in_table t data preserve_format) (fst b1);
             ss = map_count (replace_in_section data preserve_format) (sections d)
         in (d\<lparr>body := fst b2, sections := fst ss\<rparr>, Inr (snd b1 + snd b2 + snd ss))))"

text \<open>The paragraphs whose text the scanner and the substitution read: those directly in
  the body, in the cells of the body's tables, and in the headers and footers.\<close>

definition scanned_locations :: "document \<Rightarrow> para set" where
  "scanned_locations d =
     {p. p \<in> set (paragraphs_of (body d))
       \<or> (\<exists>t\<in>set (tables_of (body d)). \<exists>row\<in>set (tr_lst t). \<exists>cell\<in>set row.
              p \<in> set (paragraphs_of cell))
       \<or> (\<exists>s\<in>set (sections d). \<exists>part. (header s = Some part \<or> footer s = Some part)
              \<and> p \<in> set (paragraphs_of (hf_blocks part)))}"

text \<open>
  A text read as a template: literal pieces without an opening brace, and tokens of
  names. \<open>substitute\<close> is the substitution the specification speaks of: the token of a
  name with a value becomes the value, the token of a name without a value stays.
\<close>

datatype seg = Lit string | Tok string

fun render_seg :: "seg \<Rightarrow> string" where
  "render_seg (Lit l) = l"
| "render_seg (Tok n) = token n"

definition render :: "seg list \<Rightarrow> string" where
  "render segs = concat (map render_seg segs)"

fun plain_seg :: "seg \<Rightarrow> bool" where
  "plain_seg (Lit l) = (CHR ''{'' \<notin> set l)"
| "plain_seg (Tok n) = is_name n"

fun substitute :: "(string \<times> string) list \<Rightarrow> seg \<Rightarrow> seg" where
  "substitute data (Lit l) = Lit l"
| "substitute data (Tok n) = (case map_of data n of Some v \<Rightarrow> Lit v | None \<Rightarrow> Tok n)"


text \<open>The text after \<^verbatim>\<open>str.replace\<close> was applied for each key of the mapping in turn.\<close>

definition replaced_text :: "(string \<times> string) list \<Rightarrow> string \<Rightarrow> string" where
  "replaced_text data t = foldl (\<lambda>s kv. py_replace (token (fst kv)) (snd kv) s) t data"
section \<open>DynamicContentProcessor (generar\_informe.py)\<close>

text \<open>
  The data payload: a value is a string, an array of strings or an array of flat
  string-valued objects. An object is the list of its fields in order. \<^verbatim>\<open>str(item)\<close> is
  the item itself for a string; for an object it is Python's rendering of the
  dictionary, which the functions below take as the parameter \<open>str_obj\<close>.
\<close>

type_synonym obj = "(string \<times> string) list"

datatype jvalue = Scalar string | StrList "string list" | ObjList "obj list"

fun is_list :: "jvalue \<Rightarrow> bool" where
  "is_list (Scalar s) = False"
| "is_list (StrList xs) = True"
| "is_list (ObjList os) = True"

fun list_items :: "(obj \<Rightarrow> string) \<Rightarrow> jvalue \<Rightarrow> string list" where
  "list_items str_obj (Scalar s) = []"
| "list_items str_obj (StrList xs) = xs"
| "list_items str_obj (ObjList os) = map str_obj os"

text \<open>The bullet marker \<^verbatim>\<open>"\<bullet> "\<close>: the bullet U+2022 in UTF-8 and a space.\<close>

definition bullet :: string where
  "bullet = [CHR 0xE2, CHR 0x80, CHR 0xA2, CHR 0x20]"

text \<open>\<^verbatim>\<open>parent.insert(i, x)\<close> of lxml and \<^verbatim>\<open>list.insert\<close>: \<open>x\<close> becomes child number \<open>i\<close>,
  or the last child when there are fewer children.\<close>

definition insert_at :: "nat \<Rightarrow> 'a \<Rightarrow> 'a list \<Rightarrow> 'a list" where
  "insert_at i x xs = take i xs @ x # drop i xs"

text \<open>
  \<^verbatim>\<open>_create_bullet_paragraph\<close>: a new paragraph with the bulleted text in one run and the
  style of the template paragraph. \<^verbatim>\<open>document.add_paragraph\<close> appends it to the body;
  the \<^verbatim>\<open>parent.insert\<close> that follows moves it to its place, so \<open>insert_at\<close> is the net
  effect on the body.
\<close>

definition create_bullet_paragraph :: "string \<Rightarrow> string \<Rightarrow> para" where
  "create_bullet_paragraph txt sty =
     \<lparr>style = sty, alignment = None,
      runs = [\<lparr>run_text = bullet @ txt, run_fmt = plain_format\<rparr>]\<rparr>"

text \<open>
  The first loop of \<^verbatim>\<open>expand_dynamic_lists\<close>: for every body paragraph and every key of
  the mapping in order, an entry when the value is a list and the key's token is in the
  paragraph text. Only the direct paragraphs of the body are visited. An entry holds the
  paragraph object; the model holds its position \<open>i\<close> among the children of the body.
  Entries are processed from the last to the first, and processing an entry changes the
  paragraph in place and inserts after it, so when an entry is processed its paragraph
  is still child number \<open>i\<close>: that is what \<^verbatim>\<open>list(parent).index(para._element)\<close> returns.
\<close>

definition list_matches :: "(string \<times> jvalue) list \<Rightarrow> para \<Rightarrow> (string \<times> jvalue) list" where
  "list_matches data p =
     filter (\<lambda>kv. is_list (snd kv) \<and> py_in (token (fst kv)) (para_text p)) data"

fun paragraphs_to_process ::
  "nat \<Rightarrow> block list \<Rightarrow> (string \<times> jvalue) list \<Rightarrow> (nat \<times> string \<times> jvalue) list" where
  "paragraphs_to_process i [] data = []"
| "paragraphs_to_process i (Paragraph p # bs) data =
     map (\<lambda>kv. (i, fst kv, snd kv)) (list_matches data p)
     @ paragraphs_to_process (Suc i) bs data"
| "paragraphs_to_process i (Table t # bs) data = paragraphs_to_process (Suc i) bs data"

text \<open>The loop over \<^verbatim>\<open>items[1:]\<close>: each new paragraph goes after the previous one.\<close>

fun insert_items :: "string \<Rightarrow> nat \<Rightarrow> string list \<Rightarrow> block list \<Rightarrow> block list" where
  "insert_items sty para_index [] bs = bs"
| "insert_items sty para_index (item # items) bs =
     insert_items sty (para_index + 1) items
       (insert_at (para_index + 1) (Paragraph (create_bullet_paragraph item sty)) bs)"

text \<open>The body of the second loop, on the body's children and the count.\<close>

definition expand_list_entry ::
  "(obj \<Rightarrow> string) \<Rightarrow> nat \<times> string \<times> jvalue \<Rightarrow> block list \<times> nat \<Rightarrow> block list \<times> nat" where
  "expand_list_entry str_obj e st =
     (case e of (i, key, val) \<Rightarrow>
        (case fst st ! i of
           Table t \<Rightarrow> st
         | Paragraph p \<Rightarrow>
             (case list_items str_obj val of
                [] \<Rightarrow>
                  ((fst st)[i := Paragraph (set_para_text p
                                  (py_replace (token key) [] (para_text p)))],
                   snd st)
              | first_item # rest \<Rightarrow>
                  (insert_items (style p) i rest
                     ((fst st)[i := Paragraph (set_para_text p (bullet @ first_item))]),
                   snd st + 1))))"

definition expand_dynamic_lists ::
  "(obj \<Rightarrow> string) \<Rightarrow> document \<Rightarrow> (string \<times> jvalue) list \<Rightarrow> document \<times> nat" where
  "expand_dynamic_lists str_obj d data =
     (let r = fold (expand_list_entry str_obj)
                (rev (paragraphs_to_process 0 (body d) data)) (body d, 0)
      in (d\<lparr>body := fst r\<rparr>, snd r))"

text \<open>
  \<^verbatim>\<open>expand_dynamic_tables\<close>. A key is a candidate for a row when its value is a non-empty
  array of objects and some cell text of the row holds the key's token or the token of
  \<^verbatim>\<open>key.field\<close> for a field of the first object. The loop over the keys does not stop at
  a match, so the last candidate of the first row that has one is taken.
\<close>

definition cell_matches :: "string \<Rightarrow> string list \<Rightarrow> cell \<Rightarrow> bool" where
  "cell_matches key field_names c =
     (py_in (token key) (cell_text c)
      \<or> list_ex (\<lambda>field. py_in (token (key @ ''.'' @ field)) (cell_text c)) field_names)"

fun row_candidate :: "row \<Rightarrow> string \<times> jvalue \<Rightarrow> (string \<times> obj list) list" where
  "row_candidate row (key, ObjList (ob # os)) =
     (if list_ex (cell_matches key (map fst ob)) row then [(key, ob # os)] else [])"
| "row_candidate row (key, v) = []"

definition row_candidates :: "(string \<times> jvalue) list \<Rightarrow> row \<Rightarrow> (string \<times> obj list) list" where
  "row_candidates data row = concat (map (row_candidate row) data)"

fun find_template_row ::
  "(string \<times> jvalue) list \<Rightarrow> nat \<Rightarrow> row list \<Rightarrow> (nat \<times> obj list \<times> string) option" where
  "find_template_row data i [] = None"
| "find_template_row data i (row # rows) =
     (case row_candidates data row of
        [] \<Rightarrow> find_template_row data (Suc i) rows
      | c # cs \<Rightarrow> Some (i, snd (last (c # cs)), fst (last (c # cs))))"

text \<open>\<^verbatim>\<open>_fill_row_with_data\<close>: the template text of each cell with the tokens of the
  fields replaced, written into the first paragraph of the cell.\<close>

fun fill_text :: "obj \<Rightarrow> string \<Rightarrow> string \<Rightarrow> string" where
  "fill_text [] key t = t"
| "fill_text ((field, val) # rest) key t =
     fill_text rest key
       (py_replace (token field) val (py_replace (token (key @ ''.'' @ field)) val t))"

fun set_first_paragraph :: "string \<Rightarrow> cell \<Rightarrow> cell" where
  "set_first_paragraph t [] = []"
| "set_first_paragraph t (Paragraph p # bs) = Paragraph (set_para_text p t) # bs"
| "set_first_paragraph t (Table tb # bs) = Table tb # set_first_paragraph t bs"

definition fill_row_with_data :: "row \<Rightarrow> string list \<Rightarrow> obj \<Rightarrow> string \<Rightarrow> row" where
  "fill_row_with_data row cell_formats row_data key =
     map (\<lambda>ic. if fst ic < length cell_formats
                then set_first_paragraph (fill_text row_data key (cell_formats ! fst ic)) (snd ic)
                else snd ic)
       (enumerate 0 row)"

text \<open>A row object is a row child of the table element; \<open>map_tr n f\<close> changes row
  number \<open>n\<close> of \<^verbatim>\<open>table.rows\<close> in place.\<close>

fun map_tr :: "nat \<Rightarrow> (row \<Rightarrow> row) \<Rightarrow> tbl \<Rightarrow> tbl" where
  "map_tr n f [] = []"
| "map_tr n f (NonRow x # ch) = NonRow x # map_tr n f ch"
| "map_tr 0 f (Tr r # ch) = Tr (f r) # ch"
| "map_tr (Suc n) f (Tr r # ch) = Tr r # map_tr n f ch"

text \<open>
  \<^verbatim>\<open>_add_table_row\<close>: a deep copy of row \<^verbatim>\<open>position - 1\<close> is inserted as child number
  \<^verbatim>\<open>position\<close> of the table element, and row number \<^verbatim>\<open>position\<close> of the table is
  returned. The children of the table element are its rows and whatever else it holds,
  so the copy is placed by its position among all children. The caller passes
  \<^verbatim>\<open>template_row_idx + 1\<close>, so the copied row exists.
\<close>

definition add_table_row :: "tbl \<Rightarrow> nat \<Rightarrow> tbl" where
  "add_table_row ch position =
     insert_at position (Tr (tr_lst ch ! (if position > 0 then position - 1 else 0))) ch"

fun add_rows :: "string list \<Rightarrow> string \<Rightarrow> nat \<Rightarrow> obj list \<Rightarrow> tbl \<Rightarrow> tbl" where
  "add_rows cell_formats key idx [] ch = ch"
| "add_rows cell_formats key idx (row_data # rest) ch =
     add_rows cell_formats key idx rest
       (map_tr (idx + 1) (\<lambda>r. fill_row_with_data r cell_formats row_data key)
          (add_table_row ch (idx + 1)))"

definition expand_table_rows :: "tbl \<Rightarrow> nat \<Rightarrow> obj list \<Rightarrow> string \<Rightarrow> tbl" where
  "expand_table_rows ch template_row_idx rows_data key =
     (case rows_data of
        [] \<Rightarrow> ch
      | first_data # rest \<Rightarrow>
          (let cell_formats = map cell_text (tr_lst ch ! template_row_idx)
           in add_rows cell_formats key template_row_idx rest
                (map_tr template_row_idx
                   (\<lambda>r. fill_row_with_data r cell_formats first_data key) ch)))"

definition expand_table :: "(string \<times> jvalue) list \<Rightarrow> tbl \<Rightarrow> tbl \<times> nat" where
  "expand_table data ch =
     (case find_template_row data 0 (tr_lst ch) of
        None \<Rightarrow> (ch, 0)
      | Some (idx, rows_data, key) \<Rightarrow> (expand_table_rows ch idx rows_data key, 1))"

definition expand_dynamic_tables ::
  "document \<Rightarrow> (string \<times> jvalue) list \<Rightarrow> document \<times> nat" where
  "expand_dynamic_tables d data =
     (let r = on_tables (expand_table data) (body d) in (d\<lparr>body := fst r\<rparr>, snd r))"

text \<open>What the two loops of \<^verbatim>\<open>expand_dynamic_lists\<close> do to one child of the body taken
  on its own.\<close>

definition expand_list_block :: "(obj \<Rightarrow> string) \<Rightarrow> (string \<times> jvalue) list \<Rightarrow> block \<Rightarrow> block list" where
  "expand_list_block str_obj data b =
     fst (fold (expand_list_entry str_obj) (rev (paragraphs_to_process 0 [b] data)) ([b], 0))"

section \<open>ImageReplacer (src/core/image\_replacer.py)\<close>

text \<open>
  The file system as the replacer sees it: a path does not exist, exists but cannot be
  read, or holds bytes. \<^verbatim>\<open>Path.exists()\<close> is true in the last two cases and \<^verbatim>\<open>open\<close>
  raises in the first two.
\<close>

datatype file_state = Missing | Unreadable | Readable string

type_synonym filesystem = "string \<Rightarrow> file_state"

text \<open>\<^verbatim>\<open>xs[i]\<close> on a Python sequence: a negative index counts from the end, and
  \<open>None\<close> stands for the \<^verbatim>\<open>IndexError\<close>.\<close>

definition py_index :: "'a list \<Rightarrow> int \<Rightarrow> 'a option" where
  "py_index xs i =
     (if 0 \<le> i \<and> i < int (length xs) then Some (xs ! nat i)
      else if i < 0 \<and> - int (length xs) \<le> i then Some (xs ! nat (int (length xs) + i))
      else None)"

text \<open>\<^verbatim>\<open>int(s)\<close> for a string of printable ASCII characters and ASCII white space:
  surrounding white space (blank, tab, line feed, vertical tab, form feed, carriage
  return), an optional sign, and decimal digits; \<open>None\<close> stands for the \<^verbatim>\<open>ValueError\<close>.
  Underscores between digits do not occur, because the strings parsed are the pieces of
  a key between its underscores. On other characters Python also takes the decimal
  digits and the white space of Unicode, so \<open>py_int\<close> is \<^verbatim>\<open>int\<close> on the strings that
  satisfy \<open>plain_ascii\<close>, and a result \<open>Some i\<close> is the result of \<^verbatim>\<open>int\<close> on every
  string (below the interpreter's limit on the number of digits, where it has one).\<close>

definition is_space :: "char \<Rightarrow> bool" where
  "is_space c = (c \<in> set [CHR 0x20, CHR 0x09, CHR 0x0A, CHR 0x0B, CHR 0x0C, CHR 0x0D])"

definition plain_ascii :: "string \<Rightarrow> bool" where
  "plain_ascii s =
     list_all (\<lambda>c. is_space c \<or> ((32::nat) \<le> of_char c \<and> of_char c < (127::nat))) s"

definition is_digit :: "char \<Rightarrow> bool" where
  "is_digit c = (c \<in> set ''0123456789'')"

definition digits_value :: "string \<Rightarrow> int" where
  "digits_value ds = foldl (\<lambda>a c. 10 * a + (int (of_char c) - 48)) 0 ds"

definition py_strip :: "string \<Rightarrow> string" where
  "py_strip s = rev (dropWhile is_space (rev (dropWhile is_space s)))"

definition py_int :: "string \<Rightarrow> int option" where
  "py_int s =
     (let t = py_strip s;
          neg = (t \<noteq> [] \<and> hd t = CHR ''-'');
          ds = (if t \<noteq> [] \<and> (hd t = CHR ''-'' \<or> hd t = CHR ''+'') then tl t else t)
      in if ds \<noteq> [] \<and> list_all is_digit ds
         then Some (if neg then - digits_value ds else digits_value ds)
         else None)"

text \<open>\<^verbatim>\<open>Path(p).suffix\<close>: the last component of the path, from its last dot, when that
  dot is neither its first nor its last character.\<close>

definition path_name :: "string \<Rightarrow> string" where
  "path_name p =
     (case filter (\<lambda>c. c \<noteq> [] \<and> c \<noteq> ''.'') (py_split CHR ''/'' p) of
        [] \<Rightarrow> []
      | c # cs \<Rightarrow> last (c # cs))"

definition path_suffix :: "string \<Rightarrow> string" where
  "path_suffix p =
     (let name = path_name p;
          k = length (takeWhile (\<lambda>c. c \<noteq> CHR ''.'') (rev name))
      in if CHR ''.'' \<in> set name \<and> 0 < k \<and> k + 1 < length name
         then drop (length name - 1 - k) name
         else [])"

text \<open>
  \<^verbatim>\<open>_update_content_type\<close> looks the lower-case extension up in its table and, when it is
  there, assigns to \<^verbatim>\<open>image_part.content_type\<close>. In python-docx \<^verbatim>\<open>Part.content_type\<close> is a
  property with a getter only (the value lives in \<^verbatim>\<open>_content_type\<close>), so this assignment
  raises \<^verbatim>\<open>AttributeError\<close> and the part stays as it is; for an extension outside the
  table nothing is assigned and the method returns. The result is the error or the part
  after the call.
\<close>

definition content_types :: "(string \<times> string) list" where
  "content_types =
     [(''.png'', ''image/png''), (''.jpg'', ''image/jpeg''), (''.jpeg'', ''image/jpeg''),
      (''.gif'', ''image/gif''), (''.bmp'', ''image/bmp''), (''.tiff'', ''image/tiff''),
      (''.tif'', ''image/tiff'')]"

definition update_content_type :: "image_part \<Rightarrow> string \<Rightarrow> py_error + image_part" where
  "update_content_type part new_image_path =
     (case map_of content_types (py_lower (path_suffix new_image_path)) of
        Some ct \<Rightarrow> Inl AttributeError
      | None \<Rightarrow> Inr part)"

text \<open>
  The three replace methods end with the same lines, from the collection of the image
  relationships to \<^verbatim>\<open>return True\<close>: the index check, the relationship at the index,
  reading the file, the target part of the relationship (which raises for an external
  target), the store into \<^verbatim>\<open>_blob\<close>, and the call of \<^verbatim>\<open>_update_content_type\<close>. The blob is
  stored before that call, so an error raised by it leaves the new blob in the part.
  A method returns the document after the call with the raised error or the returned
  boolean.
\<close>

definition image_rels :: "relationship list \<Rightarrow> relationship list" where
  "image_rels rels = filter (\<lambda>r. py_in ''image'' (reltype r)) rels"

definition store_blob :: "document \<Rightarrow> string \<Rightarrow> string \<Rightarrow> document" where
  "store_blob d pn image_data = d\<lparr>media := (media d)(pn := (media d pn)\<lparr>blob := image_data\<rparr>)\<rparr>"

definition swap_image ::
  "document \<Rightarrow> filesystem \<Rightarrow> relationship list \<Rightarrow> int \<Rightarrow> string
    \<Rightarrow> document \<times> (py_error + bool)" where
  "swap_image d fs rels image_index new_image_path =
     (if image_index \<ge> int (length (image_rels rels)) then (d, Inr False)
      else case py_index (image_rels rels) image_index of
        None \<Rightarrow> (d, Inl IndexError)
      | Some old_rel \<Rightarrow>
          (case fs new_image_path of
             Readable image_data \<Rightarrow>
               (case target old_rel of
                  External url \<Rightarrow> (d, Inl ValueError)
                | Internal pn \<Rightarrow>
                    (case update_content_type (media (store_blob d pn image_data) pn)
                            new_image_path of
                       Inl e \<Rightarrow> (store_blob d pn image_data, Inl e)
                     | Inr part \<Rightarrow>
                         ((store_blob d pn image_data)
                            \<lparr>media := (media (store_blob d pn image_data))(pn := part)\<rparr>,
                          Inr True)))
           | Unreadable \<Rightarrow> (d, Inl OSError)
           | Missing \<Rightarrow> (d, Inl OSError)))"

definition replace_header_image ::
  "document \<Rightarrow> filesystem \<Rightarrow> int \<Rightarrow> string \<Rightarrow> int \<Rightarrow> document \<times> (py_error + bool)" where
  "replace_header_image d fs section_idx new_image_path image_index =
     (if section_idx \<ge> int (length (sections d)) then (d, Inr False)
      else if fs new_image_path = Missing then (d, Inr False)
      else case py_index (sections d) section_idx of
        None \<Rightarrow> (d, Inl IndexError)
      | Some sec \<Rightarrow>
          (case header sec of
             None \<Rightarrow> (d, Inr False)
           | Some part \<Rightarrow> swap_image d fs (hf_rels part) image_index new_image_path))"

definition replace_footer_image ::
  "document \<Rightarrow> filesystem \<Rightarrow> int \<Rightarrow> string \<Rightarrow> int \<Rightarrow> document \<times> (py_error + bool)" where
  "replace_footer_image d fs section_idx new_image_path image_index =
     (if section_idx \<ge> int (length (sections d)) then (d, Inr False)
      else if fs new_image_path = Missing then (d, Inr False)
      else case py_index (sections d) section_idx of
        None \<Rightarrow> (d, Inl IndexError)
      | Some sec \<Rightarrow>
          (case footer sec of
             None \<Rightarrow> (d, Inr False)
           | Some part \<Rightarrow> swap_image d fs (hf_rels part) image_index new_image_path))"

definition replace_body_image_by_index ::
  "document \<Rightarrow> filesystem \<Rightarrow> int \<Rightarrow> string \<Rightarrow> document \<times> (py_error + bool)" where
  "replace_body_image_by_index d fs image_index new_image_path =
     (if fs new_image_path = Missing then (d, Inr False)
      else swap_image d fs (body_rels d) image_index new_image_path)"

text \<open>
  \<^verbatim>\<open>replace_images_batch\<close>. \<open>batch_attempt\<close> is the body of the \<^verbatim>\<open>try\<close>: the key is split
  at the underscores, the indices are parsed, and the method of the location is called;
  \<^verbatim>\<open>parts[1]\<close> raises when the key has one part only. \<open>replace_one\<close> adds the
  \<^verbatim>\<open>except Exception\<close>: any error is the result \<^verbatim>\<open>False\<close>. The mapping is a list of pairs in
  the order of the dictionary, and so is the result.
\<close>

definition batch_attempt ::
  "document \<Rightarrow> filesystem \<Rightarrow> string \<Rightarrow> string \<Rightarrow> document \<times> (py_error + bool)" where
  "batch_attempt d fs key new_path =
     (let parts = py_split CHR ''_'' key; location = hd parts in
      if location = ''header'' then
        (if length parts < 2 then (d, Inl IndexError)
         else case py_int (parts ! 1) of
           None \<Rightarrow> (d, Inl ValueError)
         | Some section_idx \<Rightarrow>
             (case (if length parts > 2 then py_int (parts ! 2) else Some 0) of
                None \<Rightarrow> (d, Inl ValueError)
              | Some img_idx \<Rightarrow> replace_header_image d fs section_idx new_path img_idx))
      else if location = ''footer'' then
        (if length parts < 2 then (d, Inl IndexError)
         else case py_int (parts ! 1) of
           None \<Rightarrow> (d, Inl ValueError)
         | Some section_idx \<Rightarrow>
             (case (if length parts > 2 then py_int (parts ! 2) else Some 0) of
                None \<Rightarrow> (d, Inl ValueError)
              | Some img_idx \<Rightarrow> replace_footer_image d fs section_idx new_path img_idx))
      else if location = ''body'' then
        (if length parts < 2 then (d, Inl IndexError)
         else case py_int (parts ! 1) of
           None \<Rightarrow> (d, Inl ValueError)
         | Some img_idx \<Rightarrow> replace_body_image_by_index d fs img_idx new_path)
      else (d, Inr False))"

definition replace_one :: "document \<Rightarrow> filesystem \<Rightarrow> string \<times> string \<Rightarrow> document \<times> bool" where
  "replace_one d fs kp =
     (case batch_attempt d fs (fst kp) (snd kp) of
        (d', Inr b) \<Rightarrow> (d', b)
      | (d', Inl e) \<Rightarrow> (d', False))"

fun replace_images_batch ::
  "document \<Rightarrow> filesystem \<Rightarrow> (string \<times> string) list \<Rightarrow> document \<times> (string \<times> bool) list" where
  "replace_images_batch d fs [] = (d, [])"
| "replace_images_batch d fs (kp # rest) =
     (fst (replace_images_batch (fst (replace_one d fs kp)) fs rest),
      (fst kp, snd (replace_one d fs kp))
      # snd (replace_images_batch (fst (replace_one d fs kp)) fs rest))"

section \<open>Example documents\<close>

definition mk_para :: "string \<Rightarrow> para" where
  "mk_para t = \<lparr>style = ''Normal'', alignment = None,
     runs = [\<lparr>run_text = t, run_fmt = plain_format\<rparr>]\<rparr>"

definition mk_doc :: "block list \<Rightarrow> document" where
  "mk_doc bs = \<lparr>body = bs, body_rels = [], body_drawings = [], sections = [],
     media = (\<lambda>_. \<lparr>blob = [], content_type = []\<rparr>)\<rparr>"

definition items_doc :: document where
  "items_doc = mk_doc [Paragraph (mk_para ''Intro''), Paragraph (mk_para ''{{items}}''),
                       Paragraph (mk_para ''End'')]"

definition two_lists_doc :: document where
  "two_lists_doc = mk_doc [Paragraph (mk_para ''{{a}} {{b}}'')]"

definition nested_doc :: document where
  "nested_doc =
     \<lparr>body = [Paragraph \<lparr>style = ''Normal'', alignment = None,
                runs = [\<lparr>run_text = ''{{rows.field}}'', run_fmt = plain_format\<rparr>]\<rparr>],
      body_rels = [], body_drawings = [], sections = [],
      media = (\<lambda>_. \<lparr>blob = [], content_type = []\<rparr>)\<rparr>"

definition split_para :: para where
  "split_para = \<lparr>style = ''Normal'', alignment = None,
     runs = [\<lparr>run_text = ''Hello {{na'', run_fmt = plain_format\<lparr>bold := Some True\<rparr>\<rparr>,
             \<lparr>run_text = ''me}}!'', run_fmt = plain_format\<rparr>]\<rparr>"

definition rows_table :: tbl where
  "rows_table = [NonRow ''tblPr'', NonRow ''tblGrid'',
                 Tr [[Paragraph (mk_para ''Name'')]],
                 Tr [[Paragraph (mk_para ''{{rows.field}}'')]]]"

definition rows_doc :: document where
  "rows_doc = mk_doc [Table rows_table]"

definition image_reltype :: string where
  "image_reltype = ''http://schemas.openxmlformats.org/officeDocument/2006/relationships/image''"

definition image_doc :: document where
  "image_doc =
     \<lparr>body = [Paragraph (mk_para ''Report'')],
      body_rels = [\<lparr>rel_id = ''rId5'', reltype = image_reltype,
                    target = Internal ''/word/media/image2.png''\<rparr>],
      body_drawings = [\<lparr>embed = ''rId5'', is_inline = True, extent_cx = Some 914400,
                        extent_cy = Some 457200, pos_offset = None, wrap = ''inline''\<rparr>],
      sections = [\<lparr>header = Some \<lparr>hf_blocks = [Paragraph (mk_para ''Logo'')],
                                   hf_rels = [\<lparr>rel_id = ''rId1'', reltype = image_reltype,
                                                target = Internal ''/word/media/image1.png''\<rparr>],
                                   hf_drawings = [\<lparr>embed = ''rId1'', is_inline = False,
                                                    extent_cx = Some 1828800, extent_cy = Some 914400,
                                                    pos_offset = Some (0, 0), wrap = ''square''\<rparr>]\<rparr>,
                  footer = None\<rparr>],
      media = (\<lambda>pn. \<lparr>blob = ''old'', content_type = ''image/png''\<rparr>)\<rparr>"

definition image_fs :: filesystem where
  "image_fs p = (if p = ''new/chart.png'' then Readable ''PNG-bytes''
                 else if p = ''new/logo.webp'' then Readable ''WEBP-bytes''
                 else if p = ''new/stamp.svg'' then Readable ''SVG-bytes''
                 else if p = ''locked.png'' then Unreadable
                 else Missing)"

definition strict_doc :: document where
  "strict_doc = mk_doc [Paragraph (mk_para ''Hello {{name}}, today is {{date}}'')]"

definition twice_doc :: document where
  "twice_doc = mk_doc [Paragraph (mk_para ''{{a}} and {{a}}'')]"

definition hello_doc :: document where
  "hello_doc = mk_doc [Paragraph (mk_para ''Hello {{name}}'')]"


definition two_keys_doc :: document where
  "two_keys_doc = mk_doc [Paragraph (mk_para ''{{a}} {{b}}''),
                          Paragraph (mk_para ''{{a}} again {{a}}'')]"

definition brace_key_doc :: document where
  "brace_key_doc = mk_doc [Paragraph (mk_para ''{{{a}}'')]"
section \<open>Substrings, tokens and the scanner\<close>

lemma py_in_iff: "py_in p s \<longleftrightarrow> (\<exists>a b. s = a @ p @ b)"
proof (induction s)
  case Nil
  show ?case by auto
next
  case (Cons c s)
  show ?case
  proof
    assume "py_in p (c # s)"
    then consider "prefix p (c # s)" | "py_in p s" by auto
    then show "\<exists>a b. c # s = a @ p @ b"
    proof cases
      case 1
      then obtain b where "c # s = p @ b" by (auto simp: prefix_def)
      then have "c # s = [] @ p @ b" by simp
      then show ?thesis by blast
    next
      case 2
      with Cons.IH obtain a b where "s = a @ p @ b" by blast
      then have "c # s = (c # a) @ p @ b" by simp
      then show ?thesis by blast
    qed
  next
    assume "\<exists>a b. c # s = a @ p @ b"
    then obtain a b where e: "c # s = a @ p @ b" by blast
    show "py_in p (c # s)"
    proof (cases a)
      case Nil
      with e have "prefix p (c # s)" by (simp add: prefix_def)
      then show ?thesis by simp
    next
      case (Cons c' a')
      with e have "s = a' @ p @ b" by simp
      with Cons.IH have "py_in p s" by blast
      then show ?thesis by simp
    qed
  qed
qed

lemma not_name_char_braces [simp]:
  "\<not> name_char CHR ''{''" "\<not> name_char CHR ''}''" "\<not> name_char CHR ''.''"
  by (simp_all add: name_char_def)

lemma token_Cons: "token n = CHR ''{'' # CHR ''{'' # n @ ''}}''"
  by (simp add: token_def)

lemma token_not_Nil [simp]: "token n \<noteq> []"
  by (simp add: token_def)

lemma length_token [simp]: "length (token n) = length n + 4"
  by (simp add: token_def)

lemma takeWhile_name: "list_all name_char n \<Longrightarrow> takeWhile name_char (n @ CHR ''}'' # r) = n"
  by (induction n) auto

lemma dropWhile_name: "list_all name_char n \<Longrightarrow> dropWhile name_char (n @ CHR ''}'' # r) = CHR ''}'' # r"
  by (induction n) auto

lemma match_here_token: "is_name n \<Longrightarrow> match_here (token n @ r) = Some (n, r)"
  by (simp add: match_here_def token_def is_name_def takeWhile_name dropWhile_name Let_def)

lemma match_here_Some:
  assumes "match_here s = Some (n, r)"
  shows "is_name n \<and> s = token n @ r"
proof -
  from assms obtain s' where s: "s = ''{{'' @ s'"
    by (auto simp: match_here_def prefix_def split: if_splits)
  from assms s have n: "n = takeWhile name_char s'" and ne: "n \<noteq> []"
    and p: "prefix ''}}'' (dropWhile name_char s')" and r: "r = drop 2 (dropWhile name_char s')"
    by (auto simp: match_here_def Let_def split: if_splits)
  from p r have "dropWhile name_char s' = ''}}'' @ r" by (auto simp: prefix_def)
  with n have "s' = n @ ''}}'' @ r"
    by (metis takeWhile_dropWhile_id)
  moreover have "list_all name_char n"
    unfolding n by (simp add: list_all_iff) (meson set_takeWhileD)
  ultimately show ?thesis using ne s by (simp add: is_name_def token_def)
qed

text \<open>A proper tail of a token is not the start of a token.\<close>

lemma token_tail_no_start:
  assumes "is_name n" "0 < j" "j < length (token n)"
  shows "\<not> prefix ''{{'' (drop j (token n) @ b)"
proof -
  from assms(1) obtain c n' where n: "n = c # n'" and c: "name_char c" and n': "list_all name_char n'"
    by (cases n) (auto simp: is_name_def)
  from assms(2) obtain i where j: "j = Suc i" by (cases j) auto
  show ?thesis
  proof (cases i)
    case 0
    with j n c show ?thesis by (auto simp: token_Cons)
  next
    case (Suc m)
    have d: "drop j (token n) = drop m (n @ ''}}'')"
      using j Suc by (simp add: token_Cons)
    from assms(3) j Suc have m: "m < length (n @ ''}}'')" by simp
    then obtain e es where des: "drop m (n @ ''}}'') = e # es"
      by (cases "drop m (n @ ''}}'')") auto
    then have "e \<in> set (n @ ''}}'')" by (metis in_set_dropD list.set_intros(1))
    then have "e \<noteq> CHR ''{''" using assms(1) by (auto simp: is_name_def list_all_iff)
    then show ?thesis using d des by simp
  qed
qed

lemma token_inside_token:
  assumes "is_name k" "is_name n" "j < length (token n)"
    and "prefix (token k) (drop j (token n) @ b)"
  shows "j = 0 \<and> k = n"
proof -
  have "prefix ''{{'' (token k)" by (simp add: token_def)
  with assms(4) have st: "prefix ''{{'' (drop j (token n) @ b)"
    using prefix_order.trans by blast
  have j: "j = 0"
  proof (rule ccontr)
    assume "j \<noteq> 0"
    then show False using token_tail_no_start [OF assms(2) _ assms(3)] st by simp
  qed
  with assms(4) have "prefix (k @ ''}}'') (n @ ''}}'' @ b)" by (simp add: token_def)
  then obtain r where "n @ ''}}'' @ b = k @ ''}}'' @ r" by (auto simp: prefix_def)
  then have "takeWhile name_char (n @ CHR ''}'' # CHR ''}'' # b) = takeWhile name_char (k @ CHR ''}'' # CHR ''}'' # r)"
    by simp
  then have "n = k" using assms(1,2) by (simp add: takeWhile_name is_name_def)
  with j show ?thesis by simp
qed

lemma token_tail_not_prefix:
  assumes "is_name k" "0 < i" "i < length (token k)"
  shows "\<not> prefix (drop i (token k)) (token n @ b)"
proof
  assume p: "prefix (drop i (token k)) (token n @ b)"
  from assms(1) obtain c k' where k: "k = c # k'" and c: "name_char c"
    by (cases k) (auto simp: is_name_def)
  from assms(2) obtain j where i: "i = Suc j" by (cases i) auto
  show False
  proof (cases j)
    case 0
    with i k c p show ?thesis by (auto simp: token_Cons)
  next
    case (Suc m)
    have d: "drop i (token k) = drop m (k @ ''}}'')"
      using i Suc by (simp add: token_Cons)
    from assms(3) i Suc have m: "m < length (k @ ''}}'')" by simp
    then obtain e es where des: "drop m (k @ ''}}'') = e # es"
      by (cases "drop m (k @ ''}}'')") auto
    then have "e \<in> set (k @ ''}}'')" by (metis in_set_dropD list.set_intros(1))
    then have "e \<noteq> CHR ''{''" using assms(1) by (auto simp: is_name_def list_all_iff)
    then show ?thesis using p d des by (simp add: token_Cons)
  qed
qed

lemma prefix_append_cases:
  assumes "prefix p (a @ w)"
  shows "prefix p a \<or> (length a < length p \<and> prefix (drop (length a) p) w)"
proof -
  from assms consider "prefix p a" | us where "p = a @ us" "prefix us w"
    by (auto simp: prefix_append)
  then show ?thesis
  proof cases
    case 1 then show ?thesis by simp
  next
    case 2
    show ?thesis
    proof (cases "us = []")
      case True with 2 show ?thesis by simp
    next
      case False with 2 show ?thesis by simp
    qed
  qed
qed

lemma repl_prefix: "p \<noteq> [] \<Longrightarrow> repl p v (p @ r) = v @ repl p v r"
  by (cases p) simp_all

text \<open>Replacing the token of \<open>k\<close> walks through a piece of the token of \<open>n\<close>.\<close>

lemma repl_through_piece:
  assumes "is_name k" "is_name n"
  shows "token n = x @ u @ y \<Longrightarrow> (y \<noteq> [] \<longrightarrow> b = []) \<Longrightarrow> (k = n \<longrightarrow> x \<noteq> [] \<or> y \<noteq> [])
    \<Longrightarrow> repl (token k) v (u @ b) = u @ repl (token k) v b"
proof (induction u arbitrary: x)
  case Nil
  show ?case by simp
next
  case (Cons c u)
  have np: "\<not> prefix (token k) (c # u @ b)"
  proof
    assume p: "prefix (token k) (c # u @ b)"
    have d: "drop (length x) (token n) = (c # u) @ y" using Cons.prems(1) by simp
    have lx: "length x < length (token n)"
      using arg_cong [OF Cons.prems(1), of length] by simp
    have "prefix (token k) (drop (length x) (token n) @ b)"
    proof (cases "y = []")
      case True
      with p d show ?thesis by simp
    next
      case False
      with Cons.prems(2) have "b = []" by simp
      with p have "prefix (token k) (c # u)" by simp
      then have "prefix (token k) ((c # u) @ y)" using prefix_prefix by fastforce
      with d \<open>b = []\<close> show ?thesis by simp
    qed
    from token_inside_token [OF assms lx this] have x0: "length x = 0" and kn: "k = n" by simp_all
    with Cons.prems(3) have y: "y \<noteq> []" by simp
    with Cons.prems(2) have b: "b = []" by simp
    from x0 Cons.prems(1) have "token n = (c # u) @ y" by simp
    then have "length (token n) = length (c # u) + length y" by (metis length_append)
    then have "length (c # u) < length (token n)" using y by simp
    moreover from p b kn have "length (token n) \<le> length (c # u)"
      using prefix_length_le by fastforce
    ultimately show False by simp
  qed
  have "token n = (x @ [c]) @ u @ y" using Cons.prems(1) by simp
  from Cons.IH [OF this Cons.prems(2)] have "repl (token k) v (u @ b) = u @ repl (token k) v b"
    by simp
  with np show ?case by simp
qed

lemma repl_token_segment:
  assumes "is_name k" "is_name n"
  shows "token n = x @ u @ y \<Longrightarrow> (x \<noteq> [] \<longrightarrow> a = []) \<Longrightarrow> (y \<noteq> [] \<longrightarrow> b = [])
    \<Longrightarrow> (k = n \<longrightarrow> x \<noteq> [] \<or> y \<noteq> [])
    \<Longrightarrow> \<exists>a' b'. repl (token k) v (a @ u @ b) = a' @ u @ b'
          \<and> (a = [] \<longrightarrow> a' = []) \<and> (b = [] \<longrightarrow> b' = [])"
proof (induction a rule: length_induct)
  case (1 a)
  show ?case
  proof (cases a)
    case Nil
    from repl_through_piece [OF assms "1.prems"(1,3,4), of v]
    have "repl (token k) v (u @ b) = u @ repl (token k) v b" .
    then have "repl (token k) v (a @ u @ b) = [] @ u @ repl (token k) v b
        \<and> (a = [] \<longrightarrow> [] = ([]::string)) \<and> (b = [] \<longrightarrow> repl (token k) v b = [])"
      using Nil by simp
    then show ?thesis by blast
  next
    case (Cons c a0)
    with "1.prems"(2) have x: "x = []" by auto
    with "1.prems"(1) have tn: "token n = u @ y" by simp
    have pre: "prefix (u @ b) (token n @ b)"
    proof (cases "y = []")
      case True with tn show ?thesis by simp
    next
      case False
      with "1.prems"(3) have "b = []" by simp
      with tn show ?thesis by simp
    qed
    show ?thesis
    proof (cases "prefix (token k) (a @ u @ b)")
      case True
      from prefix_append_cases [OF True] have "prefix (token k) a"
      proof
        assume "prefix (token k) a" then show ?thesis .
      next
        assume h: "length a < length (token k) \<and> prefix (drop (length a) (token k)) (u @ b)"
        then have "prefix (drop (length a) (token k)) (token n @ b)"
          using pre prefix_order.trans by blast
        moreover have "0 < length a" using Cons by simp
        ultimately show ?thesis using token_tail_not_prefix [OF assms(1) _ _, of "length a" n b] h
          by blast
      qed
      then obtain a1 where a1: "a = token k @ a1" by (auto simp: prefix_def)
      then have "length a1 < length a" by simp
      with "1.IH" have "token n = x @ u @ y \<longrightarrow> (x \<noteq> [] \<longrightarrow> a1 = []) \<longrightarrow> (y \<noteq> [] \<longrightarrow> b = [])
          \<longrightarrow> (k = n \<longrightarrow> x \<noteq> [] \<or> y \<noteq> [])
          \<longrightarrow> (\<exists>a' b'. repl (token k) v (a1 @ u @ b) = a' @ u @ b'
                \<and> (a1 = [] \<longrightarrow> a' = []) \<and> (b = [] \<longrightarrow> b' = []))" by blast
      with "1.prems" x obtain a' b' where
        r: "repl (token k) v (a1 @ u @ b) = a' @ u @ b'" and b: "b = [] \<longrightarrow> b' = []" by auto
      have "repl (token k) v (token k @ (a1 @ u @ b)) = v @ repl (token k) v (a1 @ u @ b)"
        by (rule repl_prefix) simp
      then have "repl (token k) v (a @ u @ b) = v @ repl (token k) v (a1 @ u @ b)"
        using a1 by simp
      then have "repl (token k) v (a @ u @ b) = (v @ a') @ u @ b'" using r by simp
      then show ?thesis using b Cons by blast
    next
      case False
      have "length a0 < length a" using Cons by simp
      with "1.IH" have "token n = x @ u @ y \<longrightarrow> (x \<noteq> [] \<longrightarrow> a0 = []) \<longrightarrow> (y \<noteq> [] \<longrightarrow> b = [])
          \<longrightarrow> (k = n \<longrightarrow> x \<noteq> [] \<or> y \<noteq> [])
          \<longrightarrow> (\<exists>a' b'. repl (token k) v (a0 @ u @ b) = a' @ u @ b'
                \<and> (a0 = [] \<longrightarrow> a' = []) \<and> (b = [] \<longrightarrow> b' = []))" by blast
      with "1.prems" x obtain a' b' where
        r: "repl (token k) v (a0 @ u @ b) = a' @ u @ b'" and b: "b = [] \<longrightarrow> b' = []" by auto
      from False Cons have "repl (token k) v (a @ u @ b) = c # repl (token k) v (a0 @ u @ b)"
        by simp
      then have "repl (token k) v (a @ u @ b) = (c # a') @ u @ b'" using r by simp
      then show ?thesis using b Cons by blast
    qed
  qed
qed

lemma findall_sound: "n \<in> set (findall s) \<Longrightarrow> is_name n \<and> py_in (token n) s"
proof (induction s rule: findall.induct)
  case (1 s)
  show ?case
  proof (cases "s = []")
    case True
    with "1.prems" show ?thesis by (simp add: findall.simps)
  next
    case False
    show ?thesis
    proof (cases "match_here s")
      case None
      with False "1.prems" have "n \<in> set (findall (tl s))" by (simp add: findall.simps [of s])
      from "1.IH"(1) [OF False None this] have "is_name n" and "py_in (token n) (tl s)" by simp_all
      moreover from False obtain c s' where "s = c # s'" by (cases s) auto
      ultimately show ?thesis by simp
    next
      case (Some nr)
      obtain m r where nr: "nr = (m, r)" by (cases nr)
      from match_here_Some Some nr have m: "is_name m" and s: "s = token m @ r" by simp_all
      from False Some nr "1.prems" have "n = m \<or> n \<in> set (findall r)"
        by (simp add: findall.simps [of s])
      then show ?thesis
      proof
        assume "n = m"
        with m s have "s = [] @ token n @ r" by simp
        then show ?thesis using m \<open>n = m\<close> py_in_iff by blast
      next
        assume "n \<in> set (findall r)"
        from "1.IH"(2) [OF False Some nr [symmetric] this] have "is_name n" and "py_in (token n) r"
          by simp_all
        then obtain a b where "r = a @ token n @ b" using py_in_iff by blast
        with s have "s = (token m @ a) @ token n @ b" by simp
        then show ?thesis using \<open>is_name n\<close> py_in_iff by blast
      qed
    qed
  qed
qed

lemma findall_complete:
  assumes "is_name n"
  shows "n \<in> set (findall (a @ token n @ b))"
proof (induction a rule: length_induct)
  case (1 a)
  show ?case
  proof (cases a)
    case Nil
    then show ?thesis using match_here_token [OF assms, of b]
      by (simp add: findall.simps [of "token n @ b"])
  next
    case (Cons c a0)
    let ?s = "a @ token n @ b"
    have ne: "?s \<noteq> []" using Cons by simp
    show ?thesis
    proof (cases "match_here ?s")
      case None
      have "length a0 < length a" using Cons by simp
      with "1.IH" have "n \<in> set (findall (a0 @ token n @ b))" by blast
      then show ?thesis using None Cons ne by (simp add: findall.simps [of "c # a0 @ token n @ b"])
    next
      case (Some mr)
      obtain m r where mr: "mr = (m, r)" by (cases mr)
      from match_here_Some Some mr have m: "is_name m" and s: "?s = token m @ r" by simp_all
      then have "prefix (token m) (a @ token n @ b)" by (simp add: prefix_def)
      from prefix_append_cases [OF this] have "prefix (token m) a"
      proof
        assume "prefix (token m) a" then show ?thesis .
      next
        assume h: "length a < length (token m) \<and> prefix (drop (length a) (token m)) (token n @ b)"
        moreover have "0 < length a" using Cons by simp
        ultimately show ?thesis using token_tail_not_prefix [OF m, of "length a" n b] by blast
      qed
      then obtain a1 where a1: "a = token m @ a1" by (auto simp: prefix_def)
      with s have r: "r = a1 @ token n @ b" by simp
      from a1 have "length a1 < length a" by simp
      with "1.IH" have "n \<in> set (findall (a1 @ token n @ b))" by blast
      then show ?thesis using Some mr r ne by (simp add: findall.simps [of ?s])
    qed
  qed
qed

lemma set_findall: "set (findall s) = {n. is_name n \<and> py_in (token n) s}"
proof -
  have "n \<in> set (findall s)" if "is_name n" "py_in (token n) s" for n
  proof -
    from that(2) obtain a b where "s = a @ token n @ b" using py_in_iff by blast
    with findall_complete [OF that(1)] show ?thesis by simp
  qed
  with findall_sound show ?thesis by blast
qed

section \<open>Substitution in a run\<close>

lemma fst_map_count [simp]: "fst (map_count f xs) = map (\<lambda>x. fst (f x)) xs"
  by (simp add: map_count_def)

lemma snd_map_count [simp]: "snd (map_count f xs) = sum_list (map (\<lambda>x. snd (f x)) xs)"
  by (simp add: map_count_def)

lemma py_replace_token [simp]: "py_replace (token k) v s = repl (token k) v s"
  by (simp add: py_replace_def)

lemma replace_keys_untouched:
  "\<forall>k\<in>set (map fst data). \<not> py_in (token k) t \<Longrightarrow> replace_keys data t = (t, 0)"
  by (induction data arbitrary: t) auto

lemma replace_keys_segment:
  assumes "is_name n" "token n = x @ u @ y"
  shows "\<forall>k\<in>set (map fst data). is_name k \<Longrightarrow> (x \<noteq> [] \<longrightarrow> a = []) \<Longrightarrow> (y \<noteq> [] \<longrightarrow> b = [])
    \<Longrightarrow> (n \<in> set (map fst data) \<longrightarrow> x \<noteq> [] \<or> y \<noteq> [])
    \<Longrightarrow> \<exists>a' b'. fst (replace_keys data (a @ u @ b)) = a' @ u @ b'
          \<and> (a = [] \<longrightarrow> a' = []) \<and> (b = [] \<longrightarrow> b' = [])"
proof (induction data arbitrary: a b)
  case Nil
  show ?case by auto
next
  case (Cons kv data)
  obtain k v where kv: "kv = (k, v)" by (cases kv)
  from Cons.prems(1) kv have k: "is_name k" and ks: "\<forall>k\<in>set (map fst data). is_name k" by auto
  from Cons.prems(4) kv have kn: "k = n \<longrightarrow> x \<noteq> [] \<or> y \<noteq> []"
    and ns: "n \<in> set (map fst data) \<longrightarrow> x \<noteq> [] \<or> y \<noteq> []" by auto
  show ?case
  proof (cases "py_in (token k) (a @ u @ b)")
    case False
    with kv have "replace_keys (kv # data) (a @ u @ b) = replace_keys data (a @ u @ b)" by simp
    with Cons.IH [OF ks Cons.prems(2,3) ns] show ?thesis by simp
  next
    case True
    from repl_token_segment [OF k assms(1,2) Cons.prems(2,3) kn, of v]
    obtain a1 b1 where r: "repl (token k) v (a @ u @ b) = a1 @ u @ b1"
      and a1: "a = [] \<longrightarrow> a1 = []" and b1: "b = [] \<longrightarrow> b1 = []" by blast
    from Cons.prems(2) a1 have xa: "x \<noteq> [] \<longrightarrow> a1 = []" by simp
    from Cons.prems(3) b1 have yb: "y \<noteq> [] \<longrightarrow> b1 = []" by simp
    from Cons.IH [OF ks xa yb ns] obtain a' b' where
      "fst (replace_keys data (a1 @ u @ b1)) = a' @ u @ b'"
      and "a1 = [] \<longrightarrow> a' = []" and "b1 = [] \<longrightarrow> b' = []" by blast
    moreover from True kv r have
      "fst (replace_keys (kv # data) (a @ u @ b)) = fst (replace_keys data (a1 @ u @ b1))" by simp
    ultimately show ?thesis using a1 b1 by auto
  qed
qed

lemma replace_in_run_fmt [simp]: "run_fmt (fst (replace_in_run data r)) = run_fmt r"
  by (simp add: replace_in_run_def)

lemma replace_in_run_untouched:
  "\<forall>k\<in>set (map fst data). \<not> py_in (token k) (run_text r) \<Longrightarrow> fst (replace_in_run data r) = r"
  by (simp add: replace_in_run_def replace_keys_untouched)

lemma replace_in_run_segment:
  assumes "is_name n" "token n = x @ u @ y" "\<forall>k\<in>set (map fst data). is_name k"
    "x \<noteq> [] \<longrightarrow> a = []" "y \<noteq> [] \<longrightarrow> b = []" "n \<in> set (map fst data) \<longrightarrow> x \<noteq> [] \<or> y \<noteq> []"
    "run_text r = a @ u @ b"
  shows "\<exists>a' b'. run_text (fst (replace_in_run data r)) = a' @ u @ b'
          \<and> (a = [] \<longrightarrow> a' = []) \<and> (b = [] \<longrightarrow> b' = [])"
proof (cases "pattern_search (run_text r)")
  case False
  with assms(7) show ?thesis by (auto simp: replace_in_run_def)
next
  case True
  with replace_keys_segment [OF assms(1,2,3,4,5,6)] assms(7) show ?thesis
    by (simp add: replace_in_run_def)
qed

section \<open>List expansion, child by child\<close>

lemma tables_of_append [simp]: "tables_of (xs @ ys) = tables_of xs @ tables_of ys"
  by (induction xs rule: tables_of.induct) simp_all

lemma paragraphs_of_append [simp]: "paragraphs_of (xs @ ys) = paragraphs_of xs @ paragraphs_of ys"
  by (induction xs rule: paragraphs_of.induct) simp_all

lemma tables_of_update_para:
  "(i < length bs \<longrightarrow> (\<exists>p. bs ! i = Paragraph p)) \<Longrightarrow> tables_of (bs[i := Paragraph q]) = tables_of bs"
proof (induction bs arbitrary: i rule: tables_of.induct)
  case 1
  show ?case by simp
next
  case (2 p bs)
  then show ?case by (cases i) auto
next
  case (3 t bs)
  then show ?case by (cases i) auto
qed

lemma tables_of_insert_at_para [simp]: "tables_of (insert_at j (Paragraph q) bs) = tables_of bs"
proof -
  have "tables_of (take j bs @ drop j bs) = tables_of bs" by simp
  then show ?thesis unfolding insert_at_def by (simp del: append_take_drop_id)
qed

lemma tables_of_insert_items [simp]: "tables_of (insert_items sty j items bs) = tables_of bs"
  by (induction items arbitrary: j bs) simp_all

lemma tables_of_expand_list_entry:
  "tables_of (fst (expand_list_entry str_obj e st)) = tables_of (fst st)"
proof -
  obtain i key v where e: "e = (i, key, v)" by (cases e)
  show ?thesis
  proof (cases "fst st ! i")
    case (Table t)
    with e show ?thesis by (simp add: expand_list_entry_def)
  next
    case (Paragraph p)
    then have u: "tables_of ((fst st)[i := Paragraph q]) = tables_of (fst st)" for q
      by (intro tables_of_update_para) simp
    show ?thesis
      using e Paragraph u by (cases "list_items str_obj v") (simp_all add: expand_list_entry_def)
  qed
qed

lemma tables_of_fold_expand:
  "tables_of (fst (fold (expand_list_entry str_obj) es st)) = tables_of (fst st)"
  by (induction es arbitrary: st) (simp_all add: tables_of_expand_list_entry)

lemma fst_on_tables_paragraphs:
  "paragraphs_of (fst (on_tables f bs)) = paragraphs_of bs"
  by (induction bs rule: paragraphs_of.induct) (simp_all add: on_tables_def map_count_def)

text \<open>Locality of list expansion.\<close>

lemma insert_at_middle:
  "j \<le> length mid \<Longrightarrow> insert_at (length pre + j) x (pre @ mid @ post) = pre @ insert_at j x mid @ post"
  by (simp add: insert_at_def)

lemma length_insert_at [simp]: "length (insert_at j x xs) = Suc (length xs)"
  by (simp add: insert_at_def)

lemma insert_items_middle:
  "j < length mid \<Longrightarrow>
   insert_items sty (length pre + j) items (pre @ mid @ post) = pre @ insert_items sty j items mid @ post"
proof (induction items arbitrary: j mid)
  case Nil
  show ?case by simp
next
  case (Cons item items)
  let ?x = "Paragraph (create_bullet_paragraph item sty)"
  have "insert_at (length pre + (j + 1)) ?x (pre @ mid @ post) = pre @ insert_at (j + 1) ?x mid @ post"
    using Cons.prems by (intro insert_at_middle) simp
  moreover have "j + 1 < length (insert_at (j + 1) ?x mid)" using Cons.prems by simp
  ultimately show ?case using Cons.IH [of "j + 1" "insert_at (j + 1) ?x mid"]
    by (simp add: add.assoc)
qed

lemma insert_items_not_Nil: "bs \<noteq> [] \<Longrightarrow> insert_items sty j items bs \<noteq> []"
  by (induction items arbitrary: j bs) (simp_all add: insert_at_def)

lemma expand_list_entry_local:
  assumes "mid \<noteq> []"
  shows "expand_list_entry str_obj (length pre, key, v) (pre @ mid @ post, c)
       = (pre @ fst (expand_list_entry str_obj (0, key, v) (mid, c)) @ post,
          snd (expand_list_entry str_obj (0, key, v) (mid, c)))
     \<and> fst (expand_list_entry str_obj (0, key, v) (mid, c)) \<noteq> []"
proof -
  from assms obtain b mid' where mid: "mid = b # mid'" by (cases mid) auto
  have nth: "(pre @ mid @ post) ! length pre = b" by (simp add: mid)
  have upd: "(pre @ mid @ post)[length pre := x] = pre @ (x # mid') @ post" for x
    by (simp add: mid list_update_append)
  show ?thesis
  proof (cases b)
    case (Table t)
    with nth mid show ?thesis by (simp add: expand_list_entry_def)
  next
    case (Paragraph p)
    show ?thesis
    proof (cases "list_items str_obj v")
      case Nil
      with Paragraph nth upd mid show ?thesis by (simp add: expand_list_entry_def)
    next
      case (Cons e rest)
      let ?P = "Paragraph (set_para_text p (bullet @ e))"
      have "insert_items (style p) (length pre + 0) rest (pre @ (?P # mid') @ post)
          = pre @ insert_items (style p) 0 rest (?P # mid') @ post"
        by (rule insert_items_middle) simp
      moreover have "insert_items (style p) 0 rest (?P # mid') \<noteq> []"
        by (rule insert_items_not_Nil) simp
      ultimately show ?thesis
        using Cons Paragraph nth upd mid by (simp add: expand_list_entry_def)
    qed
  qed
qed

lemma fold_expand_local:
  "mid \<noteq> [] \<Longrightarrow>
   fold (expand_list_entry str_obj) (map (\<lambda>kv. (length pre, fst kv, snd kv)) kvs) (pre @ mid @ post, c)
     = (pre @ fst (fold (expand_list_entry str_obj) (map (\<lambda>kv. (0, fst kv, snd kv)) kvs) (mid, c)) @ post,
        snd (fold (expand_list_entry str_obj) (map (\<lambda>kv. (0, fst kv, snd kv)) kvs) (mid, c)))"
proof (induction kvs arbitrary: mid c)
  case Nil
  show ?case by simp
next
  case (Cons kv kvs)
  let ?r = "expand_list_entry str_obj (0, fst kv, snd kv) (mid, c)"
  from expand_list_entry_local [OF Cons.prems, of str_obj pre "fst kv" "snd kv" post c]
  have 1: "expand_list_entry str_obj (length pre, fst kv, snd kv) (pre @ mid @ post, c)
       = (pre @ fst ?r @ post, snd ?r)" and 2: "fst ?r \<noteq> []" by simp_all
  from Cons.IH [OF 2, of "snd ?r"] 1 show ?case by simp
qed

lemma fst_expand_list_entry_count:
  "fst (expand_list_entry str_obj e (bs, c)) = fst (expand_list_entry str_obj e (bs, c'))"
  by (auto simp: expand_list_entry_def split: prod.splits block.splits list.splits)

lemma fst_fold_expand_count:
  "fst (fold (expand_list_entry str_obj) es (bs, c)) = fst (fold (expand_list_entry str_obj) es (bs, c'))"
proof (induction es arbitrary: bs c c')
  case Nil
  show ?case by simp
next
  case (Cons e es)
  obtain b1 c1 where 1: "expand_list_entry str_obj e (bs, c) = (b1, c1)" by (cases "expand_list_entry str_obj e (bs, c)")
  obtain b2 c2 where 2: "expand_list_entry str_obj e (bs, c') = (b2, c2)" by (cases "expand_list_entry str_obj e (bs, c')")
  from 1 2 fst_expand_list_entry_count [of str_obj e bs c c'] have "b1 = b2" by simp
  with 1 2 Cons.IH [of b1 c1 c2] show ?case by simp
qed

lemma paragraphs_to_process_Cons:
  "paragraphs_to_process i (b # bs) data = paragraphs_to_process i [b] data @ paragraphs_to_process (Suc i) bs data"
  by (cases b) simp_all

lemma paragraphs_to_process_single:
  "paragraphs_to_process i [b] data =
     map (\<lambda>kv. (i, fst kv, snd kv)) (case b of Paragraph p \<Rightarrow> list_matches data p | Table t \<Rightarrow> [])"
  by (cases b) simp_all

lemma fold_expand_blocks:
  "fst (fold (expand_list_entry str_obj) (rev (paragraphs_to_process (length pre) bs data)) (pre @ bs, c))
     = pre @ concat (map (expand_list_block str_obj data) bs)"
proof (induction bs arbitrary: pre c)
  case Nil
  show ?case by simp
next
  case (Cons b bs)
  let ?f = "expand_list_entry str_obj"
  let ?kvs = "rev (case b of Paragraph p \<Rightarrow> list_matches data p | Table t \<Rightarrow> [])"
  let ?X = "concat (map (expand_list_block str_obj data) bs)"
  obtain B1 c1 where st1: "fold ?f (rev (paragraphs_to_process (Suc (length pre)) bs data)) (pre @ b # bs, c) = (B1, c1)"
    by (cases "fold ?f (rev (paragraphs_to_process (Suc (length pre)) bs data)) (pre @ b # bs, c)")
  from Cons.IH [of "pre @ [b]" c] st1 have B1: "B1 = pre @ [b] @ ?X" by simp
  have "fold ?f (rev (paragraphs_to_process (length pre) (b # bs) data)) (pre @ b # bs, c)
      = fold ?f (rev (paragraphs_to_process (length pre) [b] data)) (B1, c1)"
    using st1 by (simp add: paragraphs_to_process_Cons [of _ b bs])
  also have "rev (paragraphs_to_process (length pre) [b] data) = map (\<lambda>kv. (length pre, fst kv, snd kv)) ?kvs"
    by (simp add: paragraphs_to_process_single rev_map)
  finally have "fst (fold ?f (rev (paragraphs_to_process (length pre) (b # bs) data)) (pre @ b # bs, c))
      = pre @ fst (fold ?f (map (\<lambda>kv. (0, fst kv, snd kv)) ?kvs) ([b], c1)) @ ?X"
    using fold_expand_local [of "[b]" str_obj pre ?kvs ?X c1] B1 by simp
  moreover have "expand_list_block str_obj data b = fst (fold ?f (map (\<lambda>kv. (0, fst kv, snd kv)) ?kvs) ([b], c1))"
    unfolding expand_list_block_def
    by (simp add: paragraphs_to_process_single rev_map fst_fold_expand_count [of _ _ _ 0 c1])
  ultimately show ?case by simp
qed

lemma body_expand_dynamic_lists:
  "body (fst (expand_dynamic_lists str_obj d data)) = concat (map (expand_list_block str_obj data) (body d))"
  using fold_expand_blocks [of str_obj "[]" "body d" data 0]
  by (simp add: expand_dynamic_lists_def Let_def)

lemma insert_items_closed:
  "j < length bs \<Longrightarrow>
   insert_items sty j items bs
     = take (Suc j) bs @ map (\<lambda>x. Paragraph (create_bullet_paragraph x sty)) items @ drop (Suc j) bs"
proof (induction items arbitrary: j bs)
  case Nil
  show ?case by simp
next
  case (Cons item items)
  let ?x = "Paragraph (create_bullet_paragraph item sty)"
  let ?bs = "insert_at (j + 1) ?x bs"
  have l: "j + 1 < length ?bs" using Cons.prems by simp
  have t: "take (Suc (j + 1)) ?bs = take (Suc j) bs @ [?x]"
    using Cons.prems by (simp add: insert_at_def)
  have d: "drop (Suc (j + 1)) ?bs = drop (Suc j) bs"
    using Cons.prems by (simp add: insert_at_def)
  from Cons.IH [OF l] t d show ?case by simp
qed

lemma expand_list_block_unmatched:
  "(case b of Paragraph p \<Rightarrow> list_matches data p = [] | Table t \<Rightarrow> True)
   \<Longrightarrow> expand_list_block str_obj data b = [b]"
  by (cases b) (simp_all add: expand_list_block_def)

lemma expand_list_block_single:
  assumes "list_matches data p = [(key, v)]"
  shows "expand_list_block str_obj data (Paragraph p) =
     (case list_items str_obj v of
        [] \<Rightarrow> [Paragraph (set_para_text p (py_replace (token key) [] (para_text p)))]
      | e # rest \<Rightarrow> Paragraph (set_para_text p (bullet @ e))
                  # map (\<lambda>x. Paragraph (create_bullet_paragraph x (style p))) rest)"
proof (cases "list_items str_obj v")
  case Nil
  with assms show ?thesis by (simp add: expand_list_block_def expand_list_entry_def)
next
  case (Cons e rest)
  have "insert_items (style p) 0 rest [Paragraph (set_para_text p (bullet @ e))]
      = Paragraph (set_para_text p (bullet @ e))
        # map (\<lambda>x. Paragraph (create_bullet_paragraph x (style p))) rest"
    using insert_items_closed [of 0 "[Paragraph (set_para_text p (bullet @ e))]" "style p" rest]
    by simp
  with assms Cons show ?thesis by (simp add: expand_list_block_def expand_list_entry_def)
qed

section \<open>What a replace method changes\<close>

lemma py_index_in_range: "0 \<le> i \<Longrightarrow> i < int (length xs) \<Longrightarrow> py_index xs i = Some (xs ! nat i)"
  by (simp add: py_index_def)

lemma store_blob_frame:
  "body (store_blob d pn x) = body d" "body_rels (store_blob d pn x) = body_rels d"
  "body_drawings (store_blob d pn x) = body_drawings d" "sections (store_blob d pn x) = sections d"
  "content_type (media (store_blob d pn x) q) = content_type (media d q)"
  by (simp_all add: store_blob_def)

text \<open>The end shared by the three methods: either nothing is stored, or the blob of the
  target of the relationship at the index is, and then the extension decides between
  \<^verbatim>\<open>True\<close> and the error of the assignment.\<close>

lemma swap_image_result:
  assumes "swap_image d fs rels i p = (d', r)"
  shows "(d' = d \<and> r \<noteq> Inr True \<and> r \<noteq> Inl AttributeError)
       \<or> (\<exists>old_rel pn image_data.
            py_index (image_rels rels) i = Some old_rel \<and> target old_rel = Internal pn
            \<and> fs p = Readable image_data \<and> d' = store_blob d pn image_data
            \<and> r = (if map_of content_types (py_lower (path_suffix p)) = None
                   then Inr True else Inl AttributeError))"
proof (cases "int (length (image_rels rels)) \<le> i")
  case True
  with assms have "d' = d \<and> r = Inr False" by (auto simp: swap_image_def)
  then show ?thesis by simp
next
  case False
  note range = this
  show ?thesis
  proof (cases "py_index (image_rels rels) i")
    case None
    with assms range show ?thesis by (auto simp: swap_image_def)
  next
    case (Some old_rel)
    show ?thesis
    proof (cases "fs p")
      case Missing
      with assms range Some show ?thesis by (auto simp: swap_image_def)
    next
      case Unreadable
      with assms range Some show ?thesis by (auto simp: swap_image_def)
    next
      case (Readable image_data)
      show ?thesis
      proof (cases "target old_rel")
        case (External url)
        with assms range Some Readable show ?thesis by (auto simp: swap_image_def)
      next
        case (Internal pn)
        have s: "(store_blob d pn image_data)
                   \<lparr>media := (media (store_blob d pn image_data))
                       (pn := media (store_blob d pn image_data) pn)\<rparr>
                 = store_blob d pn image_data"
          by simp
        from assms range Some Readable Internal
        have "d' = store_blob d pn image_data
            \<and> r = (if map_of content_types (py_lower (path_suffix p)) = None
                   then Inr True else Inl AttributeError)"
          by (auto simp: swap_image_def update_content_type_def s split: option.splits)
        with Some Readable Internal show ?thesis by blast
      qed
    qed
  qed
qed

lemma swap_image_resolved:
  assumes "0 \<le> i" "i < int (length (image_rels rels))"
    and "target (image_rels rels ! nat i) = Internal pn" and "fs p = Readable image_data"
  shows "swap_image d fs rels i p
     = (store_blob d pn image_data,
        if map_of content_types (py_lower (path_suffix p)) = None
        then Inr True else Inl AttributeError)"
proof -
  have s: "(store_blob d pn image_data)
             \<lparr>media := (media (store_blob d pn image_data))
                 (pn := media (store_blob d pn image_data) pn)\<rparr>
           = store_blob d pn image_data"
    by simp
  from assms show ?thesis
    by (simp add: swap_image_def py_index_in_range update_content_type_def s split: option.splits)
qed

lemma swap_image_False: "swap_image d fs rels i p = (d', Inr False) \<Longrightarrow> d' = d"
  using swap_image_result [of d fs rels i p d' "Inr False"] by (auto split: if_splits)

lemma replace_body_False:
  "replace_body_image_by_index d fs i p = (d', Inr False) \<Longrightarrow> d' = d"
  by (auto simp: replace_body_image_by_index_def split: if_splits dest: swap_image_False)

lemma replace_header_False:
  "replace_header_image d fs s p i = (d', Inr False) \<Longrightarrow> d' = d"
  by (auto simp: replace_header_image_def split: if_splits option.splits dest: swap_image_False)

lemma replace_footer_False:
  "replace_footer_image d fs s p i = (d', Inr False) \<Longrightarrow> d' = d"
  by (auto simp: replace_footer_image_def split: if_splits option.splits dest: swap_image_False)

lemma replace_body_result:
  assumes "replace_body_image_by_index d fs i p = (d', r)"
  shows "(d' = d \<and> r \<noteq> Inr True \<and> r \<noteq> Inl AttributeError)
       \<or> (\<exists>old_rel pn image_data.
            py_index (image_rels (body_rels d)) i = Some old_rel \<and> target old_rel = Internal pn
            \<and> fs p = Readable image_data \<and> d' = store_blob d pn image_data
            \<and> r = (if map_of content_types (py_lower (path_suffix p)) = None
                   then Inr True else Inl AttributeError))"
proof (cases "fs p = Missing")
  case True
  with assms have "d' = d \<and> r = Inr False" by (auto simp: replace_body_image_by_index_def)
  then show ?thesis by simp
next
  case False
  with assms have "swap_image d fs (body_rels d) i p = (d', r)"
    by (simp add: replace_body_image_by_index_def)
  then show ?thesis by (rule swap_image_result)
qed

lemma replace_header_result:
  assumes "replace_header_image d fs s p i = (d', r)"
  shows "(d' = d \<and> r \<noteq> Inr True \<and> r \<noteq> Inl AttributeError)
       \<or> (\<exists>sec part old_rel pn image_data.
            py_index (sections d) s = Some sec \<and> header sec = Some part
            \<and> py_index (image_rels (hf_rels part)) i = Some old_rel \<and> target old_rel = Internal pn
            \<and> fs p = Readable image_data \<and> d' = store_blob d pn image_data
            \<and> r = (if map_of content_types (py_lower (path_suffix p)) = None
                   then Inr True else Inl AttributeError))"
proof -
  consider (early) "d' = d" "r = Inr False \<or> r = Inl IndexError"
    | (swap) sec part where "py_index (sections d) s = Some sec" "header sec = Some part"
        "swap_image d fs (hf_rels part) i p = (d', r)"
    using assms
    by (auto simp: replace_header_image_def split: if_splits option.splits)
  then show ?thesis
  proof cases
    case early
    then show ?thesis by auto
  next
    case swap
    from swap_image_result [OF swap(3)] swap(1,2) show ?thesis by blast
  qed
qed

lemma replace_footer_result:
  assumes "replace_footer_image d fs s p i = (d', r)"
  shows "(d' = d \<and> r \<noteq> Inr True \<and> r \<noteq> Inl AttributeError)
       \<or> (\<exists>sec part old_rel pn image_data.
            py_index (sections d) s = Some sec \<and> footer sec = Some part
            \<and> py_index (image_rels (hf_rels part)) i = Some old_rel \<and> target old_rel = Internal pn
            \<and> fs p = Readable image_data \<and> d' = store_blob d pn image_data
            \<and> r = (if map_of content_types (py_lower (path_suffix p)) = None
                   then Inr True else Inl AttributeError))"
proof -
  consider (early) "d' = d" "r = Inr False \<or> r = Inl IndexError"
    | (swap) sec part where "py_index (sections d) s = Some sec" "footer sec = Some part"
        "swap_image d fs (hf_rels part) i p = (d', r)"
    using assms
    by (auto simp: replace_footer_image_def split: if_splits option.splits)
  then show ?thesis
  proof cases
    case early
    then show ?thesis by auto
  next
    case swap
    from swap_image_result [OF swap(3)] swap(1,2) show ?thesis by blast
  qed
qed

text \<open>Whatever a replace method returns or raises, the document after the call is the
  document before, or that document with one blob stored.\<close>

lemma replace_any_frame:
  assumes "replace_body_image_by_index d fs i p = (d', r)
     \<or> replace_header_image d fs s p i = (d', r)
     \<or> replace_footer_image d fs s p i = (d', r)"
  shows "d' = d \<or> (\<exists>pn x. d' = store_blob d pn x)"
  using assms replace_body_result [of d fs i p d' r] replace_header_result [of d fs s p i d' r]
    replace_footer_result [of d fs s p i d' r]
  by (elim disjE) blast+

lemma replace_body_resolved:
  assumes "0 \<le> i" "i < int (length (image_rels (body_rels d)))"
    and "target (image_rels (body_rels d) ! nat i) = Internal pn" and "fs p = Readable image_data"
  shows "replace_body_image_by_index d fs i p
     = (store_blob d pn image_data,
        if map_of content_types (py_lower (path_suffix p)) = None
        then Inr True else Inl AttributeError)"
  using assms(4) swap_image_resolved [where d = d and fs = fs and p = p, OF assms]
  by (simp add: replace_body_image_by_index_def)

lemma replace_header_resolved:
  assumes "0 \<le> s" "s < int (length (sections d))" "header (sections d ! nat s) = Some part"
    and "0 \<le> i" "i < int (length (image_rels (hf_rels part)))"
    and "target (image_rels (hf_rels part) ! nat i) = Internal pn" and "fs p = Readable image_data"
  shows "replace_header_image d fs s p i
     = (store_blob d pn image_data,
        if map_of content_types (py_lower (path_suffix p)) = None
        then Inr True else Inl AttributeError)"
  using assms(1,2,3,7) swap_image_resolved [where d = d and fs = fs and p = p, OF assms(4,5,6,7)]
  by (simp add: replace_header_image_def py_index_in_range)

lemma replace_footer_resolved:
  assumes "0 \<le> s" "s < int (length (sections d))" "footer (sections d ! nat s) = Some part"
    and "0 \<le> i" "i < int (length (image_rels (hf_rels part)))"
    and "target (image_rels (hf_rels part) ! nat i) = Internal pn" and "fs p = Readable image_data"
  shows "replace_footer_image d fs s p i
     = (store_blob d pn image_data,
        if map_of content_types (py_lower (path_suffix p)) = None
        then Inr True else Inl AttributeError)"
  using assms(1,2,3,7) swap_image_resolved [where d = d and fs = fs and p = p, OF assms(4,5,6,7)]
  by (simp add: replace_footer_image_def py_index_in_range)
section \<open>The scanner (claim C6)\<close>

lemma match_here_no_brace: "CHR ''{'' \<notin> set s \<Longrightarrow> match_here s = None"
  by (cases s) (auto simp: match_here_def)

lemma findall_no_brace: "CHR ''{'' \<notin> set s \<Longrightarrow> findall s = []"
proof (induction s)
  case Nil
  show ?case by (simp add: findall.simps)
next
  case (Cons c s)
  then show ?case using match_here_no_brace [of "c # s"]
    by (simp add: findall.simps [of "c # s"])
qed

lemma takeWhile_name_dot: "list_all name_char n \<Longrightarrow> takeWhile name_char (n @ CHR ''.'' # r) = n"
  by (induction n) auto

lemma dropWhile_name_dot:
  "list_all name_char n \<Longrightarrow> dropWhile name_char (n @ CHR ''.'' # r) = CHR ''.'' # r"
  by (induction n) auto

lemma findall_nested_token:
  assumes "is_name key" "is_name field"
  shows "findall (token (key @ ''.'' @ field)) = []"
proof -
  let ?r = "key @ CHR ''.'' # field @ ''}}''"
  from assms(1) obtain c k' where k: "key = c # k'" and c: "name_char c"
    by (cases key) (auto simp: is_name_def)
  have t: "token (key @ ''.'' @ field) = CHR ''{'' # CHR ''{'' # ?r" by (simp add: token_def)
  have m0: "match_here (CHR ''{'' # CHR ''{'' # ?r) = None"
    using assms(1) by (simp add: match_here_def Let_def is_name_def takeWhile_name_dot dropWhile_name_dot)
  have m1: "match_here (CHR ''{'' # ?r) = None"
    using k c by (auto simp: match_here_def)
  have "CHR ''{'' \<notin> set ?r"
    using assms by (auto simp: is_name_def list_all_iff)
  then have "findall ?r = []" by (rule findall_no_brace)
  then have "findall (CHR ''{'' # ?r) = []"
    using m1 by (simp add: findall.simps [of "CHR ''{'' # ?r"])
  then have "findall (CHR ''{'' # CHR ''{'' # ?r) = []"
    using m0 by (simp add: findall.simps [of "CHR ''{'' # CHR ''{'' # ?r"])
  with t show ?thesis by simp
qed

lemma set_placeholders_in:
  "set (placeholders_in ps) = {n. is_name n \<and> (\<exists>p\<in>set ps. py_in (token n) (para_text p))}"
  by (auto simp: placeholders_in_def set_findall)

lemma set_table_cell_paragraphs:
  "set (table_cell_paragraphs t) = {p. \<exists>row\<in>set (tr_lst t). \<exists>cell\<in>set row. p \<in> set (paragraphs_of cell)}"
  by (auto simp: table_cell_paragraphs_def)

lemma set_hf_paragraphs:
  "set (hf_paragraphs h) = {p. \<exists>part. h = Some part \<and> p \<in> set (paragraphs_of (hf_blocks part))}"
  by (auto simp: hf_paragraphs_def split: option.splits)

lemma set_scanned_paragraphs: "set (scanned_paragraphs d) = scanned_locations d"
  unfolding scanned_paragraphs_def scanned_locations_def
  by (auto simp: set_table_cell_paragraphs set_hf_paragraphs)

text \<open>
  Claim C6, as the code has it. For every document, \<^verbatim>\<open>find_all_placeholders\<close> returns
  exactly the names \<open>n\<close> of the grammar \<^verbatim>\<open>[A-Za-z0-9_]+\<close> whose token \<^verbatim>\<open>{{n}}\<close> occurs
  in the text of a body paragraph, of a paragraph of a cell of a body table, or of a
  header or footer paragraph. A nested placeholder \<^verbatim>\<open>{{key.field}}\<close> holds no match of
  the pattern, so the scanner reports nothing for it.
\<close>

theorem find_all_placeholders_grammar:
  "find_all_placeholders d =
     {n. is_name n \<and> (\<exists>p\<in>scanned_locations d. py_in (token n) (para_text p))}
   \<and> (\<forall>key field. is_name key \<and> is_name field \<longrightarrow> findall (token (key @ ''.'' @ field)) = [])"
proof
  show "find_all_placeholders d =
     {n. is_name n \<and> (\<exists>p\<in>scanned_locations d. py_in (token n) (para_text p))}"
    by (simp add: find_all_placeholders_def set_placeholders_in set_scanned_paragraphs)
  show "\<forall>key field. is_name key \<and> is_name field \<longrightarrow> findall (token (key @ ''.'' @ field)) = []"
    using findall_nested_token by blast
qed

text \<open>
  Claim C6 as stated fails for the nested placeholder: a document whose only paragraph
  is \<^verbatim>\<open>{{rows.field}}\<close> does not report the base name \<^verbatim>\<open>rows\<close>.
\<close>

theorem nested_field_not_reported: "''rows'' \<notin> find_all_placeholders nested_doc"
  by code_simp

theorem find_all_placeholders_grammar_witness:
  "is_name ''rows'' \<and> is_name ''field'' \<and> findall (token (''rows'' @ ''.'' @ ''field'')) = []"
proof -
  have n: "is_name ''rows'' \<and> is_name ''field''" by (simp add: is_name_def name_char_def)
  with find_all_placeholders_grammar [of nested_doc] show ?thesis by blast
qed

section \<open>Table row expansion (claim C2)\<close>

lemma tr_lst_append [simp]: "tr_lst (xs @ ys) = tr_lst xs @ tr_lst ys"
  by (induction xs rule: tr_lst.induct) simp_all

lemma length_tr_lst_insert_at [simp]:
  "length (tr_lst (insert_at j (Tr r) ch)) = Suc (length (tr_lst ch))"
proof -
  have "length (tr_lst (take j ch)) + length (tr_lst (drop j ch)) = length (tr_lst (take j ch @ drop j ch))"
    by (simp del: append_take_drop_id)
  then show ?thesis by (simp add: insert_at_def)
qed

lemma set_tr_lst_insert_at [simp]:
  "set (tr_lst (insert_at j (Tr r) ch)) = insert r (set (tr_lst ch))"
proof -
  have "set (tr_lst (take j ch)) \<union> set (tr_lst (drop j ch)) = set (tr_lst (take j ch @ drop j ch))"
    by (simp del: append_take_drop_id)
  then show ?thesis by (auto simp: insert_at_def)
qed

lemma tr_lst_map_tr:
  "tr_lst (map_tr n f ch) = (if n < length (tr_lst ch) then (tr_lst ch)[n := f (tr_lst ch ! n)] else tr_lst ch)"
proof (induction n f ch rule: map_tr.induct)
  case (1 n f)
  show ?case by simp
next
  case (2 n f x ch)
  then show ?case by simp
next
  case (3 f r ch)
  show ?case by simp
next
  case (4 n f r ch)
  then show ?case by simp
qed

lemma length_tr_lst_map_tr [simp]: "length (tr_lst (map_tr n f ch)) = length (tr_lst ch)"
  by (simp add: tr_lst_map_tr)

lemma length_fill_row_with_data [simp]:
  "length (fill_row_with_data row cell_formats row_data key) = length row"
  by (simp add: fill_row_with_data_def)

lemma length_tr_lst_add_rows:
  "length (tr_lst (add_rows cell_formats key idx rest ch)) = length (tr_lst ch) + length rest"
  by (induction rest arbitrary: ch) (simp_all add: add_table_row_def)

lemma uniform_map_tr:
  assumes "\<forall>r\<in>set (tr_lst ch). length r = c" "\<And>r. length (f r) = length r"
  shows "\<forall>r\<in>set (tr_lst (map_tr n f ch)). length r = c"
proof (cases "n < length (tr_lst ch)")
  case False
  with assms(1) show ?thesis by (simp add: tr_lst_map_tr)
next
  case True
  then have "length ((tr_lst ch) ! n) = c" using assms(1) by simp
  then have "length (f (tr_lst ch ! n)) = c" using assms(2) by simp
  then show ?thesis using assms(1) True
    by (auto simp: tr_lst_map_tr dest!: set_update_subset_insert [THEN subsetD])
qed

lemma uniform_add_rows:
  "idx < length (tr_lst ch) \<Longrightarrow> \<forall>r\<in>set (tr_lst ch). length r = c
   \<Longrightarrow> \<forall>r\<in>set (tr_lst (add_rows cell_formats key idx rest ch)). length r = c"
proof (induction rest arbitrary: ch)
  case Nil
  then show ?case by simp
next
  case (Cons row_data rest)
  let ?ch1 = "add_table_row ch (idx + 1)"
  let ?ch2 = "map_tr (idx + 1) (\<lambda>r. fill_row_with_data r cell_formats row_data key) ?ch1"
  have u1: "\<forall>r\<in>set (tr_lst ?ch1). length r = c"
    using Cons.prems by (simp add: add_table_row_def)
  have u2: "\<forall>r\<in>set (tr_lst ?ch2). length r = c"
    by (rule uniform_map_tr [OF u1]) simp
  have "idx < length (tr_lst ?ch2)" using Cons.prems(1) by (simp add: add_table_row_def)
  from Cons.IH [OF this u2] show ?case by simp
qed

lemma row_candidate_mem:
  "c \<in> set (row_candidate row kv) \<Longrightarrow> snd c \<noteq> [] \<and> (fst c, ObjList (snd c)) = kv"
  by (induction row kv rule: row_candidate.induct) (auto split: if_splits)

lemma row_candidates_mem:
  "c \<in> set (row_candidates data row) \<Longrightarrow> snd c \<noteq> [] \<and> (fst c, ObjList (snd c)) \<in> set data"
  using row_candidate_mem by (fastforce simp: row_candidates_def)

lemma find_template_row_Some:
  "find_template_row data i rows = Some (idx, rows_data, key)
   \<Longrightarrow> i \<le> idx \<and> idx < i + length rows \<and> rows_data \<noteq> [] \<and> (key, ObjList rows_data) \<in> set data"
proof (induction rows arbitrary: i)
  case Nil
  then show ?case by simp
next
  case (Cons row rows)
  show ?case
  proof (cases "row_candidates data row")
    case Nil
    with Cons.prems have "find_template_row data (Suc i) rows = Some (idx, rows_data, key)" by simp
    from Cons.IH [OF this] show ?thesis by simp
  next
    case (Cons c cs)
    with Cons.prems have i: "idx = i" and l: "last (c # cs) = (key, rows_data)"
      by (simp_all add: prod_eq_iff)
    have "last (c # cs) \<in> set (row_candidates data row)" using Cons by (metis last_in_set list.distinct(1))
    from row_candidates_mem [OF this] l i show ?thesis by simp
  qed
qed

lemma row_candidates_none:
  "\<forall>kv\<in>set data. \<forall>ob os. snd kv \<noteq> ObjList (ob # os) \<Longrightarrow> row_candidates data row = []"
proof -
  have "row_candidate row kv = []" if "\<forall>ob os. snd kv \<noteq> ObjList (ob # os)" for kv
    using that by (induction row kv rule: row_candidate.induct) simp_all
  then show "\<forall>kv\<in>set data. \<forall>ob os. snd kv \<noteq> ObjList (ob # os) \<Longrightarrow> row_candidates data row = []"
    by (simp add: row_candidates_def)
qed

lemma find_template_row_none:
  "\<forall>kv\<in>set data. \<forall>ob os. snd kv \<noteq> ObjList (ob # os) \<Longrightarrow> find_template_row data i rows = None"
  by (induction rows arbitrary: i) (simp_all add: row_candidates_none)

lemma tables_of_on_tables:
  "tables_of (fst (on_tables f bs)) = map (\<lambda>t. fst (f t)) (tables_of bs)"
  by (induction bs rule: tables_of.induct) (simp_all add: on_tables_def map_count_def)

text \<open>
  Claim C2, as the code has it. When \<^verbatim>\<open>expand_dynamic_tables\<close> finds a template row in a
  table (the first row with a cell that holds the token of a key, or of \<^verbatim>\<open>key.field\<close>,
  for a non-empty array of objects), the array has \<open>M \<ge> 1\<close> elements, the table gets
  \<open>M - 1\<close> more rows, so it has its former number of rows minus one plus \<open>M\<close>, and when
  all its rows had \<open>c\<close> cells all rows of the result have \<open>c\<close> cells; with \<open>M = 1\<close>
  the template row is filled in place from the element and no other row changes. An
  empty array is never a candidate: when no value of the mapping is a non-empty array
  of objects, the table is returned as it is. Every table of the body is treated this
  way.
\<close>

theorem expand_table_cardinality:
  "(find_template_row data 0 (tr_lst ch) = Some (idx, rows_data, key) \<longrightarrow>
       rows_data \<noteq> [] \<and> idx < length (tr_lst ch)
     \<and> fst (expand_table data ch) = expand_table_rows ch idx rows_data key
     \<and> length (tr_lst (fst (expand_table data ch))) = length (tr_lst ch) - 1 + length rows_data
     \<and> ((\<forall>r\<in>set (tr_lst ch). length r = c)
          \<longrightarrow> (\<forall>r\<in>set (tr_lst (fst (expand_table data ch))). length r = c))
     \<and> (length rows_data = 1 \<longrightarrow>
          tr_lst (fst (expand_table data ch))
            = (tr_lst ch)[idx := fill_row_with_data (tr_lst ch ! idx)
                                    (map cell_text (tr_lst ch ! idx)) (hd rows_data) key]))
   \<and> ((\<forall>kv\<in>set data. \<forall>ob os. snd kv \<noteq> ObjList (ob # os)) \<longrightarrow> expand_table data ch = (ch, 0))
   \<and> tables_of (body (fst (expand_dynamic_tables d data)))
       = map (\<lambda>t. fst (expand_table data t)) (tables_of (body d))"
proof (intro conjI impI)
  assume f: "find_template_row data 0 (tr_lst ch) = Some (idx, rows_data, key)"
  from find_template_row_Some [OF f] show ne: "rows_data \<noteq> []" and idx: "idx < length (tr_lst ch)"
    by simp_all
  show e: "fst (expand_table data ch) = expand_table_rows ch idx rows_data key"
    using f by (simp add: expand_table_def)
  from ne obtain first_data rest where rd: "rows_data = first_data # rest" by (cases rows_data) auto
  let ?fmts = "map cell_text (tr_lst ch ! idx)"
  let ?ch1 = "map_tr idx (\<lambda>r. fill_row_with_data r ?fmts first_data key) ch"
  have x: "expand_table_rows ch idx rows_data key = add_rows ?fmts key idx rest ?ch1"
    by (simp add: expand_table_rows_def rd Let_def)
  show "length (tr_lst (fst (expand_table data ch))) = length (tr_lst ch) - 1 + length rows_data"
    unfolding e x using idx by (simp add: length_tr_lst_add_rows rd)
  show "length rows_data = 1 \<Longrightarrow>
          tr_lst (fst (expand_table data ch))
            = (tr_lst ch)[idx := fill_row_with_data (tr_lst ch ! idx)
                                    (map cell_text (tr_lst ch ! idx)) (hd rows_data) key]"
    unfolding e x using idx by (simp add: rd tr_lst_map_tr)
  show "\<forall>r\<in>set (tr_lst (fst (expand_table data ch))). length r = c"
    if u: "\<forall>r\<in>set (tr_lst ch). length r = c"
  proof -
    have u1: "\<forall>r\<in>set (tr_lst ?ch1). length r = c"
      by (rule uniform_map_tr [OF u]) simp
    have "idx < length (tr_lst ?ch1)" using idx by simp
    from uniform_add_rows [OF this u1] show ?thesis by (simp add: e x)
  qed
next
  assume "\<forall>kv\<in>set data. \<forall>ob os. snd kv \<noteq> ObjList (ob # os)"
  then show "expand_table data ch = (ch, 0)"
    by (simp add: expand_table_def find_template_row_none)
next
  show "tables_of (body (fst (expand_dynamic_tables d data)))
       = map (\<lambda>t. fst (expand_table data t)) (tables_of (body d))"
    by (simp add: expand_dynamic_tables_def Let_def tables_of_on_tables)
qed

theorem expand_table_cardinality_witness:
  "find_template_row [(''rows'', ObjList [[(''field'', ''X'')], [(''field'', ''Y'')]])] 0 (tr_lst rows_table)
     = Some (1, [[(''field'', ''X'')], [(''field'', ''Y'')]], ''rows'')
   \<and> length (tr_lst (fst (expand_table [(''rows'', ObjList [[(''field'', ''X'')], [(''field'', ''Y'')]])] rows_table))) = 3"
proof -
  let ?data = "[(''rows'', ObjList [[(''field'', ''X'')], [(''field'', ''Y'')]])]"
  have f: "find_template_row ?data 0 (tr_lst rows_table)
     = Some (1, [[(''field'', ''X'')], [(''field'', ''Y'')]], ''rows'')"
    by code_simp
  have l: "length (tr_lst rows_table) = 2" by (simp add: rows_table_def)
  from expand_table_cardinality [of ?data rows_table 1
      "[[(''field'', ''X'')], [(''field'', ''Y'')]]" "''rows''" 1 rows_doc,
      THEN conjunct1, THEN mp, OF f]
  have "length (tr_lst (fst (expand_table ?data rows_table)))
      = length (tr_lst rows_table) - 1 + length [[(''field'', ''X'')], [(''field'', ''Y'')]]"
    by (elim conjE) assumption
  with f l show ?thesis by simp
qed

text \<open>
  Claim C2 as stated fails for an empty array: the template row keeps its content, its
  tokens included.
\<close>

theorem empty_array_keeps_template:
  "map (map cell_text) (tr_lst (hd (tables_of (body (fst (expand_dynamic_tables rows_doc
      [(''rows'', ObjList [])]))))))
   = [[''Name''], [''{{rows.field}}'']]"
  by code_simp

text \<open>
  Where the cloned rows end up is not part of the theorem above. \<^verbatim>\<open>_expand_table_rows\<close>
  passes the same position \<^verbatim>\<open>template_row_idx + 1\<close> for every clone, unlike the list
  expansion, which advances its index: in a table element that holds rows only, the
  rows of the second and later elements come out in reverse order; and the position
  counts all children of the table element, so in a table with its properties and grid
  before the rows the clone is placed before the grid and the template row is filled a
  second time.
\<close>

lemma cloned_rows_reversed:
  "map (map cell_text) (tr_lst (expand_table_rows
      [Tr [[Paragraph (mk_para ''Name'')]], Tr [[Paragraph (mk_para ''{{rows.field}}'')]]] 1
      [[(''field'', ''X'')], [(''field'', ''Y'')], [(''field'', ''Z'')]] ''rows''))
   = [[''Name''], [''X''], [''Z''], [''Y'']]"
  by code_simp

lemma cloned_row_before_grid:
  "map (map cell_text) (tr_lst (expand_table_rows rows_table 1
      [[(''field'', ''X'')], [(''field'', ''Y'')]] ''rows''))
   = [[''X''], [''Name''], [''Y'']]"
  by code_simp

section \<open>List expansion at a site (claim C3)\<close>

lemma body_update_body [simp]: "body (d\<lparr>body := bs\<rparr>) = bs"
  by simp

lemma paragraphs_of_map_Paragraph [simp]: "paragraphs_of (map Paragraph ps) = ps"
  by (induction ps) simp_all

lemma expand_unmatched_blocks:
  "\<forall>q\<in>set (paragraphs_of bs). list_matches data q = []
   \<Longrightarrow> concat (map (expand_list_block str_obj data) bs) = bs"
proof (induction bs rule: paragraphs_of.induct)
  case 1
  show ?case by simp
next
  case (2 q bs)
  then show ?case by (simp add: expand_list_block_unmatched)
next
  case (3 t bs)
  then show ?case by (simp add: expand_list_block_unmatched)
qed

text \<open>
  Claim C3, as the code has it. Let a body paragraph \<open>p\<close> hold the token of exactly one
  list-valued key of the mapping, an array of strings \<open>es\<close>. After
  \<^verbatim>\<open>expand_dynamic_lists\<close> the body is what the expansion makes of the children before
  \<open>p\<close>, then the paragraphs of the site, then what the expansion makes of the children
  after \<open>p\<close>. For a non-empty array the site holds one paragraph for each element, in
  the order of the array, each with the bullet marker followed by the element as its
  text and with the style of \<open>p\<close>; for an empty array it holds \<open>p\<close> with the token
  replaced by the empty string. Children before or after that hold no token of a list
  stay as they are.
\<close>

theorem expand_dynamic_lists_site:
  assumes "body d = pre @ Paragraph p # post"
    and "list_matches data p = [(key, StrList es)]"
  shows "\<exists>ps.
       body (fst (expand_dynamic_lists str_obj d data))
         = body (fst (expand_dynamic_lists str_obj (d\<lparr>body := pre\<rparr>) data))
           @ map Paragraph ps
           @ body (fst (expand_dynamic_lists str_obj (d\<lparr>body := post\<rparr>) data))
     \<and> (es \<noteq> [] \<longrightarrow> map para_text ps = map (\<lambda>e. bullet @ e) es
                     \<and> (\<forall>q\<in>set ps. style q = style p))
     \<and> (es = [] \<longrightarrow> ps = [set_para_text p (py_replace (token key) [] (para_text p))])
     \<and> ((\<forall>q\<in>set (paragraphs_of pre). list_matches data q = []) \<longrightarrow>
          body (fst (expand_dynamic_lists str_obj (d\<lparr>body := pre\<rparr>) data)) = pre)
     \<and> ((\<forall>q\<in>set (paragraphs_of post). list_matches data q = []) \<longrightarrow>
          body (fst (expand_dynamic_lists str_obj (d\<lparr>body := post\<rparr>) data)) = post)"
proof -
  define ps where "ps =
    (case es of
       [] \<Rightarrow> [set_para_text p (py_replace (token key) [] (para_text p))]
     | e # rest \<Rightarrow> set_para_text p (bullet @ e)
                 # map (\<lambda>x. create_bullet_paragraph x (style p)) rest)"
  have site: "expand_list_block str_obj data (Paragraph p) = map Paragraph ps"
    using expand_list_block_single [OF assms(2), of str_obj]
    by (cases es) (simp_all add: ps_def)
  have 1: "body (fst (expand_dynamic_lists str_obj d data))
         = body (fst (expand_dynamic_lists str_obj (d\<lparr>body := pre\<rparr>) data))
           @ map Paragraph ps
           @ body (fst (expand_dynamic_lists str_obj (d\<lparr>body := post\<rparr>) data))"
    using assms(1) site by (simp add: body_expand_dynamic_lists)
  have 2: "es \<noteq> [] \<longrightarrow> map para_text ps = map (\<lambda>e. bullet @ e) es
                     \<and> (\<forall>q\<in>set ps. style q = style p)"
    by (cases es)
      (auto simp: ps_def para_text_def set_para_text_def create_bullet_paragraph_def)
  have 3: "es = [] \<longrightarrow> ps = [set_para_text p (py_replace (token key) [] (para_text p))]"
    by (simp add: ps_def)
  have 4: "(\<forall>q\<in>set (paragraphs_of bs). list_matches data q = []) \<longrightarrow>
          body (fst (expand_dynamic_lists str_obj (d\<lparr>body := bs\<rparr>) data)) = bs" for bs
    using expand_unmatched_blocks [of bs data str_obj] by (simp add: body_expand_dynamic_lists)
  from 1 2 3 4 [of pre] 4 [of post] show ?thesis by blast
qed

theorem expand_dynamic_lists_site_witness:
  "\<exists>ps. body (fst (expand_dynamic_lists (\<lambda>ob. []) items_doc
                     [(''items'', StrList [''A'', ''B'', ''C''])]))
          = [Paragraph (mk_para ''Intro'')] @ map Paragraph ps @ [Paragraph (mk_para ''End'')]
       \<and> map para_text ps = [bullet @ ''A'', bullet @ ''B'', bullet @ ''C'']"
proof -
  let ?data = "[(''items'', StrList [''A'', ''B'', ''C''])]"
  have b: "body items_doc
      = [Paragraph (mk_para ''Intro'')] @ Paragraph (mk_para ''{{items}}'')
        # [Paragraph (mk_para ''End'')]"
    by (simp add: items_doc_def mk_doc_def)
  have m: "list_matches ?data (mk_para ''{{items}}'') = [(''items'', StrList [''A'', ''B'', ''C''])]"
    by (simp add: list_matches_def mk_para_def para_text_def token_def)
  have u1: "\<forall>q\<in>set (paragraphs_of [Paragraph (mk_para ''Intro'')]). list_matches ?data q = []"
    by (simp add: list_matches_def mk_para_def para_text_def token_def)
  have u2: "\<forall>q\<in>set (paragraphs_of [Paragraph (mk_para ''End'')]). list_matches ?data q = []"
    by (simp add: list_matches_def mk_para_def para_text_def token_def)
  from expand_dynamic_lists_site [OF b m, of "\<lambda>ob. []"] obtain ps where
    1: "body (fst (expand_dynamic_lists (\<lambda>ob. []) items_doc ?data))
         = body (fst (expand_dynamic_lists (\<lambda>ob. [])
                        (items_doc\<lparr>body := [Paragraph (mk_para ''Intro'')]\<rparr>) ?data))
           @ map Paragraph ps
           @ body (fst (expand_dynamic_lists (\<lambda>ob. [])
                          (items_doc\<lparr>body := [Paragraph (mk_para ''End'')]\<rparr>) ?data))"
    and 2: "[''A'', ''B'', ''C''] \<noteq> [] \<longrightarrow>
            map para_text ps = map (\<lambda>e. bullet @ e) [''A'', ''B'', ''C'']
            \<and> (\<forall>q\<in>set ps. style q = style (mk_para ''{{items}}''))"
    and 3: "(\<forall>q\<in>set (paragraphs_of [Paragraph (mk_para ''Intro'')]). list_matches ?data q = [])
            \<longrightarrow> body (fst (expand_dynamic_lists (\<lambda>ob. [])
                        (items_doc\<lparr>body := [Paragraph (mk_para ''Intro'')]\<rparr>) ?data))
            = [Paragraph (mk_para ''Intro'')]"
    and 4: "(\<forall>q\<in>set (paragraphs_of [Paragraph (mk_para ''End'')]). list_matches ?data q = [])
            \<longrightarrow> body (fst (expand_dynamic_lists (\<lambda>ob. [])
                        (items_doc\<lparr>body := [Paragraph (mk_para ''End'')]\<rparr>) ?data))
            = [Paragraph (mk_para ''End'')]"
    by (elim exE conjE)
  from 2 have 2: "map para_text ps = [bullet @ ''A'', bullet @ ''B'', bullet @ ''C'']" by simp
  from 3 u1 have 3: "body (fst (expand_dynamic_lists (\<lambda>ob. [])
                        (items_doc\<lparr>body := [Paragraph (mk_para ''Intro'')]\<rparr>) ?data))
            = [Paragraph (mk_para ''Intro'')]" ..
  from 4 u2 have 4: "body (fst (expand_dynamic_lists (\<lambda>ob. [])
                        (items_doc\<lparr>body := [Paragraph (mk_para ''End'')]\<rparr>) ?data))
            = [Paragraph (mk_para ''End'')]" ..
  from 1 2 3 4 have "body (fst (expand_dynamic_lists (\<lambda>ob. []) items_doc ?data))
          = [Paragraph (mk_para ''Intro'')] @ map Paragraph ps @ [Paragraph (mk_para ''End'')]
       \<and> map para_text ps = [bullet @ ''A'', bullet @ ''B'', bullet @ ''C'']"
    by simp
  then show ?thesis by (rule exI [of _ ps])
qed

text \<open>
  Claim C3 as stated fails where one paragraph holds the tokens of two lists: the
  entries of the paragraph are processed from the last key to the first, each replaces
  the whole text of the paragraph, so the site shows the first element of the first
  list only. Here the paragraph \<^verbatim>\<open>{{a}} {{b}}\<close> with \<^verbatim>\<open>a = [A, B]\<close> and \<^verbatim>\<open>b = [C, D]\<close> ends
  as three paragraphs, and the element \<^verbatim>\<open>C\<close> of \<^verbatim>\<open>b\<close> is nowhere.
\<close>

theorem two_list_tokens_one_site:
  "map para_text (paragraphs_of (body (fst (expand_dynamic_lists (\<lambda>ob. [])
      two_lists_doc [(''a'', StrList [''A'', ''B'']), (''b'', StrList [''C'', ''D''])]))))
   = [bullet @ ''A'', bullet @ ''B'', bullet @ ''D'']"
  by code_simp

section \<open>Run-granular substitution (claim C5)\<close>

text \<open>
  Claim C5. In the format-preserving mode, with a mapping whose keys are names of the
  grammar, \<^verbatim>\<open>_replace_in_runs\<close> keeps the paragraph formatting, the number of runs and
  every run's formatting record; a run whose text holds no complete token of a key is
  left as it is; and a token of a key whose text is split over two adjacent runs is not
  matched: after the call the first run still ends with the first part and the second
  run still starts with the second part.
\<close>

theorem replace_in_runs_run_granular:
  assumes "\<forall>k\<in>set (map fst data). is_name k"
  shows "style (fst (replace_in_runs p data)) = style p
    \<and> alignment (fst (replace_in_runs p data)) = alignment p
    \<and> map run_fmt (runs (fst (replace_in_runs p data))) = map run_fmt (runs p)
    \<and> (\<forall>i. i < length (runs p)
          \<and> (\<forall>k\<in>set (map fst data). \<not> py_in (token k) (run_text (runs p ! i)))
          \<longrightarrow> runs (fst (replace_in_runs p data)) ! i = runs p ! i)
    \<and> (\<forall>i k x y a b. Suc i < length (runs p) \<and> k \<in> set (map fst data)
          \<and> token k = x @ y \<and> x \<noteq> [] \<and> y \<noteq> []
          \<and> run_text (runs p ! i) = a @ x \<and> run_text (runs p ! Suc i) = y @ b
          \<longrightarrow> (\<exists>a' b'. run_text (runs (fst (replace_in_runs p data)) ! i) = a' @ x
                \<and> run_text (runs (fst (replace_in_runs p data)) ! Suc i) = y @ b'))"
proof (intro conjI allI impI)
  show "style (fst (replace_in_runs p data)) = style p"
    by (simp add: replace_in_runs_def)
  show "alignment (fst (replace_in_runs p data)) = alignment p"
    by (simp add: replace_in_runs_def)
  show "map run_fmt (runs (fst (replace_in_runs p data))) = map run_fmt (runs p)"
    by (simp add: replace_in_runs_def)
next
  fix i
  assume "i < length (runs p)
    \<and> (\<forall>k\<in>set (map fst data). \<not> py_in (token k) (run_text (runs p ! i)))"
  then show "runs (fst (replace_in_runs p data)) ! i = runs p ! i"
    by (simp add: replace_in_runs_def replace_in_run_untouched)
next
  fix i k x y a b
  assume h: "Suc i < length (runs p) \<and> k \<in> set (map fst data)
          \<and> token k = x @ y \<and> x \<noteq> [] \<and> y \<noteq> []
          \<and> run_text (runs p ! i) = a @ x \<and> run_text (runs p ! Suc i) = y @ b"
  then have k: "is_name k" using assms by blast
  from h have t1: "token k = [] @ x @ y" and t2: "token k = x @ y @ []" by simp_all
  from h have r1: "run_text (runs p ! i) = a @ x @ []" and r2: "run_text (runs p ! Suc i) = [] @ y @ b"
    by simp_all
  from replace_in_run_segment [OF k t1 assms _ _ _ r1] h
  obtain a' where 1: "run_text (fst (replace_in_run data (runs p ! i))) = a' @ x" by auto
  from replace_in_run_segment [OF k t2 assms _ _ _ r2] h
  obtain b' where 2: "run_text (fst (replace_in_run data (runs p ! Suc i))) = y @ b'" by auto
  from h 1 2 show "\<exists>a' b'. run_text (runs (fst (replace_in_runs p data)) ! i) = a' @ x
                \<and> run_text (runs (fst (replace_in_runs p data)) ! Suc i) = y @ b'"
    by (simp add: replace_in_runs_def)
qed

theorem replace_in_runs_run_granular_witness:
  "runs (fst (replace_in_runs split_para [(''name'', ''World'')])) ! 0 = runs split_para ! 0
   \<and> (\<exists>a' b'. run_text (runs (fst (replace_in_runs split_para [(''name'', ''World'')])) ! 0) = a' @ ''{{na''
        \<and> run_text (runs (fst (replace_in_runs split_para [(''name'', ''World'')])) ! Suc 0) = ''me}}'' @ b')"
proof -
  have n: "\<forall>k\<in>set (map fst [(''name'', ''World'')]). is_name k"
    by (simp add: is_name_def name_char_def)
  have u: "0 < length (runs split_para)
    \<and> (\<forall>k\<in>set (map fst [(''name'', ''World'')]). \<not> py_in (token k) (run_text (runs split_para ! 0)))"
    by (simp add: split_para_def token_def)
  have s: "Suc 0 < length (runs split_para) \<and> ''name'' \<in> set (map fst [(''name'', ''World'')])
          \<and> token ''name'' = ''{{na'' @ ''me}}'' \<and> ''{{na'' \<noteq> [] \<and> ''me}}'' \<noteq> []
          \<and> run_text (runs split_para ! 0) = ''Hello '' @ ''{{na''
          \<and> run_text (runs split_para ! Suc 0) = ''me}}'' @ ''!''"
    by (simp add: split_para_def token_def)
  from replace_in_runs_run_granular [OF n, of split_para] u s show ?thesis by blast
qed

section \<open>Media swap purity (claim C7)\<close>

text \<open>
  Claim C7. Whatever a replace method (for the body, a header or a footer) returns or
  raises, the body, the relationships, the sections with their headers and footers and
  every drawing element (extent, position, inline or anchored, wrapping) are what they
  were, and so is the content type of every media part. When the method returns
  \<^verbatim>\<open>True\<close>, the index resolved to a relationship of the addressed part whose target is a
  media part of the package, the file was readable, and the document after the call is
  the document before with the blob of that one media part set to the content of the
  file: nothing but the target media entry changes. A method returns \<^verbatim>\<open>True\<close> only for a
  file whose extension is not in the table of content types, so a successful call
  changes the blob alone. For an index within the image relationships, a target inside
  the package and a readable file the blob is stored; the result is \<^verbatim>\<open>True\<close> when the
  extension is not in the table, and otherwise the assignment to the read-only
  \<^verbatim>\<open>content_type\<close> raises after the blob was stored.
\<close>

theorem replace_image_swaps_media_only:
  "(replace_body_image_by_index d fs image_index p = (d', r)
     \<or> replace_header_image d fs section_idx p image_index = (d', r)
     \<or> replace_footer_image d fs section_idx p image_index = (d', r) \<longrightarrow>
      body d' = body d \<and> body_rels d' = body_rels d \<and> body_drawings d' = body_drawings d
      \<and> sections d' = sections d
      \<and> (\<forall>q. content_type (media d' q) = content_type (media d q)))
   \<and> (replace_body_image_by_index d fs image_index p = (d', Inr True) \<longrightarrow>
        (\<exists>old_rel pn image_data.
            py_index (image_rels (body_rels d)) image_index = Some old_rel
            \<and> target old_rel = Internal pn \<and> fs p = Readable image_data
            \<and> map_of content_types (py_lower (path_suffix p)) = None
            \<and> d' = d\<lparr>media := (media d)(pn := (media d pn)\<lparr>blob := image_data\<rparr>)\<rparr>))
   \<and> (replace_header_image d fs section_idx p image_index = (d', Inr True) \<longrightarrow>
        (\<exists>sec part old_rel pn image_data.
            py_index (sections d) section_idx = Some sec \<and> header sec = Some part
            \<and> py_index (image_rels (hf_rels part)) image_index = Some old_rel
            \<and> target old_rel = Internal pn \<and> fs p = Readable image_data
            \<and> map_of content_types (py_lower (path_suffix p)) = None
            \<and> d' = d\<lparr>media := (media d)(pn := (media d pn)\<lparr>blob := image_data\<rparr>)\<rparr>))
   \<and> (replace_footer_image d fs section_idx p image_index = (d', Inr True) \<longrightarrow>
        (\<exists>sec part old_rel pn image_data.
            py_index (sections d) section_idx = Some sec \<and> footer sec = Some part
            \<and> py_index (image_rels (hf_rels part)) image_index = Some old_rel
            \<and> target old_rel = Internal pn \<and> fs p = Readable image_data
            \<and> map_of content_types (py_lower (path_suffix p)) = None
            \<and> d' = d\<lparr>media := (media d)(pn := (media d pn)\<lparr>blob := image_data\<rparr>)\<rparr>))
   \<and> (0 \<le> image_index \<and> image_index < int (length (image_rels (body_rels d)))
        \<and> target (image_rels (body_rels d) ! nat image_index) = Internal pn
        \<and> fs p = Readable image_data \<longrightarrow>
      replace_body_image_by_index d fs image_index p
        = (d\<lparr>media := (media d)(pn := (media d pn)\<lparr>blob := image_data\<rparr>)\<rparr>,
           if map_of content_types (py_lower (path_suffix p)) = None
           then Inr True else Inl AttributeError))
   \<and> (0 \<le> section_idx \<and> section_idx < int (length (sections d))
        \<and> header (sections d ! nat section_idx) = Some part
        \<and> 0 \<le> image_index \<and> image_index < int (length (image_rels (hf_rels part)))
        \<and> target (image_rels (hf_rels part) ! nat image_index) = Internal pn
        \<and> fs p = Readable image_data \<longrightarrow>
      replace_header_image d fs section_idx p image_index
        = (d\<lparr>media := (media d)(pn := (media d pn)\<lparr>blob := image_data\<rparr>)\<rparr>,
           if map_of content_types (py_lower (path_suffix p)) = None
           then Inr True else Inl AttributeError))
   \<and> (0 \<le> section_idx \<and> section_idx < int (length (sections d))
        \<and> footer (sections d ! nat section_idx) = Some part
        \<and> 0 \<le> image_index \<and> image_index < int (length (image_rels (hf_rels part)))
        \<and> target (image_rels (hf_rels part) ! nat image_index) = Internal pn
        \<and> fs p = Readable image_data \<longrightarrow>
      replace_footer_image d fs section_idx p image_index
        = (d\<lparr>media := (media d)(pn := (media d pn)\<lparr>blob := image_data\<rparr>)\<rparr>,
           if map_of content_types (py_lower (path_suffix p)) = None
           then Inr True else Inl AttributeError))"
proof (intro conjI impI)
  assume a: "replace_body_image_by_index d fs image_index p = (d', r)
     \<or> replace_header_image d fs section_idx p image_index = (d', r)
     \<or> replace_footer_image d fs section_idx p image_index = (d', r)"
  from replace_any_frame [OF a] have f: "d' = d \<or> (\<exists>pn x. d' = store_blob d pn x)" .
  from f show "body d' = body d" by (auto simp: store_blob_frame)
  from f show "body_rels d' = body_rels d" by (auto simp: store_blob_frame)
  from f show "body_drawings d' = body_drawings d" by (auto simp: store_blob_frame)
  from f show "sections d' = sections d" by (auto simp: store_blob_frame)
  from f show "\<forall>q. content_type (media d' q) = content_type (media d q)"
    by (auto simp: store_blob_frame)
next
  assume a: "replace_body_image_by_index d fs image_index p = (d', Inr True)"
  from replace_body_result [OF a]
  show "\<exists>old_rel pn image_data.
            py_index (image_rels (body_rels d)) image_index = Some old_rel
            \<and> target old_rel = Internal pn \<and> fs p = Readable image_data
            \<and> map_of content_types (py_lower (path_suffix p)) = None
            \<and> d' = d\<lparr>media := (media d)(pn := (media d pn)\<lparr>blob := image_data\<rparr>)\<rparr>"
    unfolding store_blob_def by (auto split: if_splits)
next
  assume a: "replace_header_image d fs section_idx p image_index = (d', Inr True)"
  from replace_header_result [OF a]
  show "\<exists>sec part old_rel pn image_data.
            py_index (sections d) section_idx = Some sec \<and> header sec = Some part
            \<and> py_index (image_rels (hf_rels part)) image_index = Some old_rel
            \<and> target old_rel = Internal pn \<and> fs p = Readable image_data
            \<and> map_of content_types (py_lower (path_suffix p)) = None
            \<and> d' = d\<lparr>media := (media d)(pn := (media d pn)\<lparr>blob := image_data\<rparr>)\<rparr>"
    unfolding store_blob_def by (auto split: if_splits)
next
  assume a: "replace_footer_image d fs section_idx p image_index = (d', Inr True)"
  from replace_footer_result [OF a]
  show "\<exists>sec part old_rel pn image_data.
            py_index (sections d) section_idx = Some sec \<and> footer sec = Some part
            \<and> py_index (image_rels (hf_rels part)) image_index = Some old_rel
            \<and> target old_rel = Internal pn \<and> fs p = Readable image_data
            \<and> map_of content_types (py_lower (path_suffix p)) = None
            \<and> d' = d\<lparr>media := (media d)(pn := (media d pn)\<lparr>blob := image_data\<rparr>)\<rparr>"
    unfolding store_blob_def by (auto split: if_splits)
next
  assume "0 \<le> image_index \<and> image_index < int (length (image_rels (body_rels d)))
        \<and> target (image_rels (body_rels d) ! nat image_index) = Internal pn
        \<and> fs p = Readable image_data"
  then have "replace_body_image_by_index d fs image_index p
     = (store_blob d pn image_data,
        if map_of content_types (py_lower (path_suffix p)) = None
        then Inr True else Inl AttributeError)"
    by (intro replace_body_resolved) (elim conjE, assumption)+
  then show "replace_body_image_by_index d fs image_index p
        = (d\<lparr>media := (media d)(pn := (media d pn)\<lparr>blob := image_data\<rparr>)\<rparr>,
           if map_of content_types (py_lower (path_suffix p)) = None
           then Inr True else Inl AttributeError)"
    by (simp only: store_blob_def)
next
  assume "0 \<le> section_idx \<and> section_idx < int (length (sections d))
        \<and> header (sections d ! nat section_idx) = Some part
        \<and> 0 \<le> image_index \<and> image_index < int (length (image_rels (hf_rels part)))
        \<and> target (image_rels (hf_rels part) ! nat image_index) = Internal pn
        \<and> fs p = Readable image_data"
  then have "replace_header_image d fs section_idx p image_index
     = (store_blob d pn image_data,
        if map_of content_types (py_lower (path_suffix p)) = None
        then Inr True else Inl AttributeError)"
    by (intro replace_header_resolved [where part = part]) (elim conjE, assumption)+
  then show "replace_header_image d fs section_idx p image_index
        = (d\<lparr>media := (media d)(pn := (media d pn)\<lparr>blob := image_data\<rparr>)\<rparr>,
           if map_of content_types (py_lower (path_suffix p)) = None
           then Inr True else Inl AttributeError)"
    by (simp only: store_blob_def)
next
  assume "0 \<le> section_idx \<and> section_idx < int (length (sections d))
        \<and> footer (sections d ! nat section_idx) = Some part
        \<and> 0 \<le> image_index \<and> image_index < int (length (image_rels (hf_rels part)))
        \<and> target (image_rels (hf_rels part) ! nat image_index) = Internal pn
        \<and> fs p = Readable image_data"
  then have "replace_footer_image d fs section_idx p image_index
     = (store_blob d pn image_data,
        if map_of content_types (py_lower (path_suffix p)) = None
        then Inr True else Inl AttributeError)"
    by (intro replace_footer_resolved [where part = part]) (elim conjE, assumption)+
  then show "replace_footer_image d fs section_idx p image_index
        = (d\<lparr>media := (media d)(pn := (media d pn)\<lparr>blob := image_data\<rparr>)\<rparr>,
           if map_of content_types (py_lower (path_suffix p)) = None
           then Inr True else Inl AttributeError)"
    by (simp only: store_blob_def)
qed

theorem replace_image_swaps_media_only_witness:
  "snd (replace_header_image image_doc image_fs 0 ''new/logo.webp'' 0) = Inr True
   \<and> blob (media (fst (replace_header_image image_doc image_fs 0 ''new/logo.webp'' 0))
        ''/word/media/image1.png'') = ''WEBP-bytes''
   \<and> media (fst (replace_header_image image_doc image_fs 0 ''new/logo.webp'' 0))
        ''/word/media/image2.png'' = media image_doc ''/word/media/image2.png''
   \<and> content_type (media (fst (replace_header_image image_doc image_fs 0 ''new/logo.webp'' 0))
        ''/word/media/image1.png'') = content_type (media image_doc ''/word/media/image1.png'')
   \<and> sections (fst (replace_header_image image_doc image_fs 0 ''new/logo.webp'' 0))
       = sections image_doc
   \<and> body_drawings (fst (replace_header_image image_doc image_fs 0 ''new/logo.webp'' 0))
       = body_drawings image_doc"
proof -
  let ?r = "replace_header_image image_doc image_fs 0 ''new/logo.webp'' 0"
  let ?part = "the (header (sections image_doc ! 0))"
  note t = replace_image_swaps_media_only [where d = image_doc and fs = image_fs
      and image_index = 0 and section_idx = 0 and p = "''new/logo.webp''"
      and d' = "fst ?r" and r = "snd ?r" and part = ?part
      and pn = "''/word/media/image1.png''" and image_data = "''WEBP-bytes''"]
  have e: "map_of content_types (py_lower (path_suffix ''new/logo.webp'')) = None" by code_simp
  have c: "0 \<le> (0::int) \<and> 0 < int (length (sections image_doc))
        \<and> header (sections image_doc ! nat 0) = Some ?part
        \<and> 0 \<le> (0::int) \<and> 0 < int (length (image_rels (hf_rels ?part)))
        \<and> target (image_rels (hf_rels ?part) ! nat 0) = Internal ''/word/media/image1.png''
        \<and> image_fs ''new/logo.webp'' = Readable ''WEBP-bytes''"
    by (simp add: image_doc_def image_rels_def image_reltype_def image_fs_def)
  from t [THEN conjunct2, THEN conjunct2, THEN conjunct2, THEN conjunct2, THEN conjunct2,
      THEN conjunct1, THEN mp, OF c]
  have v: "?r = (image_doc\<lparr>media := (media image_doc)
                   (''/word/media/image1.png'' := (media image_doc ''/word/media/image1.png'')
                      \<lparr>blob := ''WEBP-bytes''\<rparr>)\<rparr>, Inr True)"
    by (simp only: e simp_thms if_True)
  have h: "replace_body_image_by_index image_doc image_fs 0 ''new/logo.webp'' = (fst ?r, snd ?r)
     \<or> replace_header_image image_doc image_fs 0 ''new/logo.webp'' 0 = (fst ?r, snd ?r)
     \<or> replace_footer_image image_doc image_fs 0 ''new/logo.webp'' 0 = (fst ?r, snd ?r)"
    by simp
  from t [THEN conjunct1, THEN mp, OF h]
  have f: "sections (fst ?r) = sections image_doc"
    "body_drawings (fst ?r) = body_drawings image_doc"
    "content_type (media (fst ?r) ''/word/media/image1.png'')
       = content_type (media image_doc ''/word/media/image1.png'')"
    by simp_all
  from v have 1: "snd ?r = Inr True" by simp
  from v have 2: "blob (media (fst ?r) ''/word/media/image1.png'') = ''WEBP-bytes''" by simp
  from v have 3: "media (fst ?r) ''/word/media/image2.png'' = media image_doc ''/word/media/image2.png''"
    by simp
  from 1 2 3 f show ?thesis by (intro conjI)
qed
section \<open>How a single replacement fails (claim C8)\<close>

text \<open>The failure modes of the three methods, one method at a time.\<close>

lemma replace_header_failure_modes:
  "(int (length (sections d)) \<le> section_idx \<longrightarrow>
      replace_header_image d fs section_idx p i = (d, Inr False))
   \<and> (fs p = Missing \<longrightarrow> replace_header_image d fs section_idx p i = (d, Inr False))
   \<and> (0 \<le> section_idx \<and> section_idx < int (length (sections d))
        \<and> header (sections d ! nat section_idx) = None \<longrightarrow>
      replace_header_image d fs section_idx p i = (d, Inr False))
   \<and> (0 \<le> section_idx \<and> section_idx < int (length (sections d))
        \<and> header (sections d ! nat section_idx) = Some part
        \<and> int (length (image_rels (hf_rels part))) \<le> i \<longrightarrow>
      replace_header_image d fs section_idx p i = (d, Inr False))
   \<and> (snd (replace_header_image d fs section_idx p i) = Inr False \<longrightarrow>
      fst (replace_header_image d fs section_idx p i) = d)
   \<and> (0 \<le> section_idx \<and> section_idx < int (length (sections d))
        \<and> header (sections d ! nat section_idx) = Some part
        \<and> 0 \<le> i \<and> i < int (length (image_rels (hf_rels part)))
        \<and> target (image_rels (hf_rels part) ! nat i) = Internal pn
        \<and> fs p = Readable image_data
        \<and> map_of content_types (py_lower (path_suffix p)) = None \<longrightarrow>
      replace_header_image d fs section_idx p i
        = (d\<lparr>media := (media d)(pn := (media d pn)\<lparr>blob := image_data\<rparr>)\<rparr>, Inr True))"
proof (intro conjI impI)
  show "int (length (sections d)) \<le> section_idx \<Longrightarrow>
      replace_header_image d fs section_idx p i = (d, Inr False)"
    by (simp add: replace_header_image_def)
  show "fs p = Missing \<Longrightarrow> replace_header_image d fs section_idx p i = (d, Inr False)"
    by (simp add: replace_header_image_def)
  show "0 \<le> section_idx \<and> section_idx < int (length (sections d))
        \<and> header (sections d ! nat section_idx) = None \<Longrightarrow>
      replace_header_image d fs section_idx p i = (d, Inr False)"
    by (simp add: replace_header_image_def py_index_in_range)
  show "0 \<le> section_idx \<and> section_idx < int (length (sections d))
        \<and> header (sections d ! nat section_idx) = Some part
        \<and> int (length (image_rels (hf_rels part))) \<le> i \<Longrightarrow>
      replace_header_image d fs section_idx p i = (d, Inr False)"
    by (simp add: replace_header_image_def py_index_in_range swap_image_def)
  show "snd (replace_header_image d fs section_idx p i) = Inr False \<Longrightarrow>
      fst (replace_header_image d fs section_idx p i) = d"
    using replace_header_False [of d fs section_idx p i
        "fst (replace_header_image d fs section_idx p i)"]
    by (simp add: prod_eq_iff)
  assume "0 \<le> section_idx \<and> section_idx < int (length (sections d))
        \<and> header (sections d ! nat section_idx) = Some part
        \<and> 0 \<le> i \<and> i < int (length (image_rels (hf_rels part)))
        \<and> target (image_rels (hf_rels part) ! nat i) = Internal pn
        \<and> fs p = Readable image_data
        \<and> map_of content_types (py_lower (path_suffix p)) = None"
  then have e: "map_of content_types (py_lower (path_suffix p)) = None"
    and "replace_header_image d fs section_idx p i
     = (store_blob d pn image_data,
        if map_of content_types (py_lower (path_suffix p)) = None
        then Inr True else Inl AttributeError)"
    by (simp, intro replace_header_resolved [where part = part]) (elim conjE, assumption)+
  then show "replace_header_image d fs section_idx p i
        = (d\<lparr>media := (media d)(pn := (media d pn)\<lparr>blob := image_data\<rparr>)\<rparr>, Inr True)"
    by (simp add: store_blob_def)
qed

lemma replace_footer_failure_modes:
  "(int (length (sections d)) \<le> section_idx \<longrightarrow>
      replace_footer_image d fs section_idx p i = (d, Inr False))
   \<and> (fs p = Missing \<longrightarrow> replace_footer_image d fs section_idx p i = (d, Inr False))
   \<and> (0 \<le> section_idx \<and> section_idx < int (length (sections d))
        \<and> footer (sections d ! nat section_idx) = None \<longrightarrow>
      replace_footer_image d fs section_idx p i = (d, Inr False))
   \<and> (0 \<le> section_idx \<and> section_idx < int (length (sections d))
        \<and> footer (sections d ! nat section_idx) = Some part
        \<and> int (length (image_rels (hf_rels part))) \<le> i \<longrightarrow>
      replace_footer_image d fs section_idx p i = (d, Inr False))
   \<and> (snd (replace_footer_image d fs section_idx p i) = Inr False \<longrightarrow>
      fst (replace_footer_image d fs section_idx p i) = d)
   \<and> (0 \<le> section_idx \<and> section_idx < int (length (sections d))
        \<and> footer (sections d ! nat section_idx) = Some part
        \<and> 0 \<le> i \<and> i < int (length (image_rels (hf_rels part)))
        \<and> target (image_rels (hf_rels part) ! nat i) = Internal pn
        \<and> fs p = Readable image_data
        \<and> map_of content_types (py_lower (path_suffix p)) = None \<longrightarrow>
      replace_footer_image d fs section_idx p i
        = (d\<lparr>media := (media d)(pn := (media d pn)\<lparr>blob := image_data\<rparr>)\<rparr>, Inr True))"
proof (intro conjI impI)
  show "int (length (sections d)) \<le> section_idx \<Longrightarrow>
      replace_footer_image d fs section_idx p i = (d, Inr False)"
    by (simp add: replace_footer_image_def)
  show "fs p = Missing \<Longrightarrow> replace_footer_image d fs section_idx p i = (d, Inr False)"
    by (simp add: replace_footer_image_def)
  show "0 \<le> section_idx \<and> section_idx < int (length (sections d))
        \<and> footer (sections d ! nat section_idx) = None \<Longrightarrow>
      replace_footer_image d fs section_idx p i = (d, Inr False)"
    by (simp add: replace_footer_image_def py_index_in_range)
  show "0 \<le> section_idx \<and> section_idx < int (length (sections d))
        \<and> footer (sections d ! nat section_idx) = Some part
        \<and> int (length (image_rels (hf_rels part))) \<le> i \<Longrightarrow>
      replace_footer_image d fs section_idx p i = (d, Inr False)"
    by (simp add: replace_footer_image_def py_index_in_range swap_image_def)
  show "snd (replace_footer_image d fs section_idx p i) = Inr False \<Longrightarrow>
      fst (replace_footer_image d fs section_idx p i) = d"
    using replace_footer_False [of d fs section_idx p i
        "fst (replace_footer_image d fs section_idx p i)"]
    by (simp add: prod_eq_iff)
  assume "0 \<le> section_idx \<and> section_idx < int (length (sections d))
        \<and> footer (sections d ! nat section_idx) = Some part
        \<and> 0 \<le> i \<and> i < int (length (image_rels (hf_rels part)))
        \<and> target (image_rels (hf_rels part) ! nat i) = Internal pn
        \<and> fs p = Readable image_data
        \<and> map_of content_types (py_lower (path_suffix p)) = None"
  then have e: "map_of content_types (py_lower (path_suffix p)) = None"
    and "replace_footer_image d fs section_idx p i
     = (store_blob d pn image_data,
        if map_of content_types (py_lower (path_suffix p)) = None
        then Inr True else Inl AttributeError)"
    by (simp, intro replace_footer_resolved [where part = part]) (elim conjE, assumption)+
  then show "replace_footer_image d fs section_idx p i
        = (d\<lparr>media := (media d)(pn := (media d pn)\<lparr>blob := image_data\<rparr>)\<rparr>, Inr True)"
    by (simp add: store_blob_def)
qed

lemma replace_body_failure_modes:
  "(fs p = Missing \<longrightarrow> replace_body_image_by_index d fs i p = (d, Inr False))
   \<and> (int (length (image_rels (body_rels d))) \<le> i \<longrightarrow>
      replace_body_image_by_index d fs i p = (d, Inr False))
   \<and> (snd (replace_body_image_by_index d fs i p) = Inr False \<longrightarrow>
      fst (replace_body_image_by_index d fs i p) = d)
   \<and> (0 \<le> i \<and> i < int (length (image_rels (body_rels d)))
        \<and> target (image_rels (body_rels d) ! nat i) = Internal pn
        \<and> fs p = Readable image_data
        \<and> map_of content_types (py_lower (path_suffix p)) = None \<longrightarrow>
      replace_body_image_by_index d fs i p
        = (d\<lparr>media := (media d)(pn := (media d pn)\<lparr>blob := image_data\<rparr>)\<rparr>, Inr True))"
proof (intro conjI impI)
  show "fs p = Missing \<Longrightarrow> replace_body_image_by_index d fs i p = (d, Inr False)"
    by (simp add: replace_body_image_by_index_def)
  show "int (length (image_rels (body_rels d))) \<le> i \<Longrightarrow>
      replace_body_image_by_index d fs i p = (d, Inr False)"
    by (simp add: replace_body_image_by_index_def swap_image_def)
  show "snd (replace_body_image_by_index d fs i p) = Inr False \<Longrightarrow>
      fst (replace_body_image_by_index d fs i p) = d"
    using replace_body_False [of d fs i p "fst (replace_body_image_by_index d fs i p)"]
    by (simp add: prod_eq_iff)
  assume "0 \<le> i \<and> i < int (length (image_rels (body_rels d)))
        \<and> target (image_rels (body_rels d) ! nat i) = Internal pn
        \<and> fs p = Readable image_data
        \<and> map_of content_types (py_lower (path_suffix p)) = None"
  then have e: "map_of content_types (py_lower (path_suffix p)) = None"
    and "replace_body_image_by_index d fs i p
     = (store_blob d pn image_data,
        if map_of content_types (py_lower (path_suffix p)) = None
        then Inr True else Inl AttributeError)"
    by (simp, intro replace_body_resolved) (elim conjE, assumption)+
  then show "replace_body_image_by_index d fs i p
        = (d\<lparr>media := (media d)(pn := (media d pn)\<lparr>blob := image_data\<rparr>)\<rparr>, Inr True)"
    by (simp add: store_blob_def)
qed

text \<open>
  Claim C8, as the code has it. Each of \<^verbatim>\<open>replace_header_image\<close>, \<^verbatim>\<open>replace_footer_image\<close>
  and \<^verbatim>\<open>replace_body_image_by_index\<close> returns \<^verbatim>\<open>False\<close>, raises nothing and leaves the
  document as it is when the section index is not below the number of sections, when
  the file does not exist, when the section has no header (no footer), or when the
  image index is not below the number of image relationships of the addressed part; the
  first and the third case do not arise for the body. Whenever a method returns
  \<^verbatim>\<open>False\<close> the document is unchanged. An extension outside the table of content types
  is no failure: for an index within the image relationships, a target inside the
  package and a readable file, the blob is replaced, the content type stays, and the
  result is \<^verbatim>\<open>True\<close>.
\<close>

theorem replace_image_failure_modes:
  "((int (length (sections d)) \<le> section_idx \<longrightarrow>
      replace_header_image d fs section_idx p i = (d, Inr False))
   \<and> (fs p = Missing \<longrightarrow> replace_header_image d fs section_idx p i = (d, Inr False))
   \<and> (0 \<le> section_idx \<and> section_idx < int (length (sections d))
        \<and> header (sections d ! nat section_idx) = None \<longrightarrow>
      replace_header_image d fs section_idx p i = (d, Inr False))
   \<and> (0 \<le> section_idx \<and> section_idx < int (length (sections d))
        \<and> header (sections d ! nat section_idx) = Some part
        \<and> int (length (image_rels (hf_rels part))) \<le> i \<longrightarrow>
      replace_header_image d fs section_idx p i = (d, Inr False))
   \<and> (snd (replace_header_image d fs section_idx p i) = Inr False \<longrightarrow>
      fst (replace_header_image d fs section_idx p i) = d)
   \<and> (0 \<le> section_idx \<and> section_idx < int (length (sections d))
        \<and> header (sections d ! nat section_idx) = Some part
        \<and> 0 \<le> i \<and> i < int (length (image_rels (hf_rels part)))
        \<and> target (image_rels (hf_rels part) ! nat i) = Internal pn
        \<and> fs p = Readable image_data
        \<and> map_of content_types (py_lower (path_suffix p)) = None \<longrightarrow>
      replace_header_image d fs section_idx p i
        = (d\<lparr>media := (media d)(pn := (media d pn)\<lparr>blob := image_data\<rparr>)\<rparr>, Inr True)))
   \<and> ((int (length (sections d)) \<le> section_idx \<longrightarrow>
      replace_footer_image d fs section_idx p i = (d, Inr False))
   \<and> (fs p = Missing \<longrightarrow> replace_footer_image d fs section_idx p i = (d, Inr False))
   \<and> (0 \<le> section_idx \<and> section_idx < int (length (sections d))
        \<and> footer (sections d ! nat section_idx) = None \<longrightarrow>
      replace_footer_image d fs section_idx p i = (d, Inr False))
   \<and> (0 \<le> section_idx \<and> section_idx < int (length (sections d))
        \<and> footer (sections d ! nat section_idx) = Some part
        \<and> int (length (image_rels (hf_rels part))) \<le> i \<longrightarrow>
      replace_footer_image d fs section_idx p i = (d, Inr False))
   \<and> (snd (replace_footer_image d fs section_idx p i) = Inr False \<longrightarrow>
      fst (replace_footer_image d fs section_idx p i) = d)
   \<and> (0 \<le> section_idx \<and> section_idx < int (length (sections d))
        \<and> footer (sections d ! nat section_idx) = Some part
        \<and> 0 \<le> i \<and> i < int (length (image_rels (hf_rels part)))
        \<and> target (image_rels (hf_rels part) ! nat i) = Internal pn
        \<and> fs p = Readable image_data
        \<and> map_of content_types (py_lower (path_suffix p)) = None \<longrightarrow>
      replace_footer_image d fs section_idx p i
        = (d\<lparr>media := (media d)(pn := (media d pn)\<lparr>blob := image_data\<rparr>)\<rparr>, Inr True)))
   \<and> ((fs p = Missing \<longrightarrow> replace_body_image_by_index d fs i p = (d, Inr False))
   \<and> (int (length (image_rels (body_rels d))) \<le> i \<longrightarrow>
      replace_body_image_by_index d fs i p = (d, Inr False))
   \<and> (snd (replace_body_image_by_index d fs i p) = Inr False \<longrightarrow>
      fst (replace_body_image_by_index d fs i p) = d)
   \<and> (0 \<le> i \<and> i < int (length (image_rels (body_rels d)))
        \<and> target (image_rels (body_rels d) ! nat i) = Internal pn
        \<and> fs p = Readable image_data
        \<and> map_of content_types (py_lower (path_suffix p)) = None \<longrightarrow>
      replace_body_image_by_index d fs i p
        = (d\<lparr>media := (media d)(pn := (media d pn)\<lparr>blob := image_data\<rparr>)\<rparr>, Inr True)))"
  by (rule conjI [OF replace_header_failure_modes conjI
        [OF replace_footer_failure_modes replace_body_failure_modes]])

theorem replace_image_failure_modes_witness:
  "replace_header_image image_doc image_fs 1 ''new/chart.png'' 0 = (image_doc, Inr False)
   \<and> replace_header_image image_doc image_fs 0 ''nowhere.png'' 0 = (image_doc, Inr False)
   \<and> replace_header_image image_doc image_fs 0 ''new/chart.png'' 1 = (image_doc, Inr False)
   \<and> replace_footer_image image_doc image_fs 0 ''new/chart.png'' 0 = (image_doc, Inr False)
   \<and> replace_body_image_by_index image_doc image_fs 5 ''new/chart.png'' = (image_doc, Inr False)
   \<and> snd (replace_body_image_by_index image_doc image_fs 0 ''new/stamp.svg'') = Inr True"
proof -
  let ?part = "the (header (sections image_doc ! 0))"
  have 1: "int (length (sections image_doc)) \<le> 1" by (simp add: image_doc_def)
  have 2: "image_fs ''nowhere.png'' = Missing" by (simp add: image_fs_def)
  have 3: "0 \<le> (0::int) \<and> 0 < int (length (sections image_doc))
        \<and> header (sections image_doc ! nat 0) = Some ?part
        \<and> int (length (image_rels (hf_rels ?part))) \<le> 1"
    by (simp add: image_doc_def image_rels_def)
  have 4: "0 \<le> (0::int) \<and> 0 < int (length (sections image_doc))
        \<and> footer (sections image_doc ! nat 0) = None"
    by (simp add: image_doc_def)
  have 5: "int (length (image_rels (body_rels image_doc))) \<le> 5"
    by (simp add: image_doc_def image_rels_def)
  have e: "map_of content_types (py_lower (path_suffix ''new/stamp.svg'')) = None" by code_simp
  have 6: "0 \<le> (0::int) \<and> 0 < int (length (image_rels (body_rels image_doc)))
        \<and> target (image_rels (body_rels image_doc) ! nat 0) = Internal ''/word/media/image2.png''
        \<and> image_fs ''new/stamp.svg'' = Readable ''SVG-bytes''
        \<and> map_of content_types (py_lower (path_suffix ''new/stamp.svg'')) = None"
    using e by (simp add: image_doc_def image_rels_def image_reltype_def image_fs_def)
  note t = replace_image_failure_modes [where d = image_doc and fs = image_fs]
  from t [where section_idx = 1 and p = "''new/chart.png''" and i = 0,
      THEN conjunct1, THEN conjunct1, THEN mp, OF 1]
  have a: "replace_header_image image_doc image_fs 1 ''new/chart.png'' 0 = (image_doc, Inr False)" .
  from t [where section_idx = 0 and p = "''nowhere.png''" and i = 0,
      THEN conjunct1, THEN conjunct2, THEN conjunct1, THEN mp, OF 2]
  have b: "replace_header_image image_doc image_fs 0 ''nowhere.png'' 0 = (image_doc, Inr False)" .
  from t [where section_idx = 0 and p = "''new/chart.png''" and i = 1 and part = ?part,
      THEN conjunct1, THEN conjunct2, THEN conjunct2, THEN conjunct2, THEN conjunct1, THEN mp, OF 3]
  have c: "replace_header_image image_doc image_fs 0 ''new/chart.png'' 1 = (image_doc, Inr False)" .
  from t [where section_idx = 0 and p = "''new/chart.png''" and i = 0,
      THEN conjunct2, THEN conjunct1, THEN conjunct2, THEN conjunct2, THEN conjunct1, THEN mp, OF 4]
  have d: "replace_footer_image image_doc image_fs 0 ''new/chart.png'' 0 = (image_doc, Inr False)" .
  from t [where p = "''new/chart.png''" and i = 5,
      THEN conjunct2, THEN conjunct2, THEN conjunct2, THEN conjunct1, THEN mp, OF 5]
  have f: "replace_body_image_by_index image_doc image_fs 5 ''new/chart.png'' = (image_doc, Inr False)" .
  from t [where p = "''new/stamp.svg''" and i = 0 and pn = "''/word/media/image2.png''"
      and image_data = "''SVG-bytes''",
      THEN conjunct2, THEN conjunct2, THEN conjunct2, THEN conjunct2, THEN conjunct2, THEN mp, OF 6]
  have g: "snd (replace_body_image_by_index image_doc image_fs 0 ''new/stamp.svg'') = Inr True"
    by simp
  from a b c d f g show ?thesis by (intro conjI)
qed

text \<open>
  Claim C8 as stated fails for an unrecognised file type: replacing the header image by
  a \<^verbatim>\<open>.webp\<close> file returns \<^verbatim>\<open>True\<close> and changes the blob.
\<close>

theorem unknown_extension_replaces:
  "snd (replace_header_image image_doc image_fs 0 ''new/logo.webp'' 0) = Inr True
   \<and> media (fst (replace_header_image image_doc image_fs 0 ''new/logo.webp'' 0))
        ''/word/media/image1.png''
      = \<lparr>blob = ''WEBP-bytes'', content_type = ''image/png''\<rparr>
   \<and> blob (media image_doc ''/word/media/image1.png'') = ''old''"
  by code_simp

text \<open>
  With an extension of the table the methods do not come to \<^verbatim>\<open>return True\<close>: the blob is
  stored, and then the assignment to \<^verbatim>\<open>content_type\<close> raises. A file that exists and cannot
  be read raises in \<^verbatim>\<open>open\<close>, before anything is stored.
\<close>

lemma known_extension_raises:
  "snd (replace_header_image image_doc image_fs 0 ''new/chart.png'' 0) = Inl AttributeError
   \<and> media (fst (replace_header_image image_doc image_fs 0 ''new/chart.png'' 0))
        ''/word/media/image1.png''
      = \<lparr>blob = ''PNG-bytes'', content_type = ''image/png''\<rparr>
   \<and> snd (replace_header_image image_doc image_fs 0 ''locked.png'' 0) = Inl OSError"
  by code_simp
section \<open>Batch replacement (claim C9)\<close>

lemma replace_one_attempt:
  "replace_one d fs kp
     = (fst (batch_attempt d fs (fst kp) (snd kp)),
        snd (batch_attempt d fs (fst kp) (snd kp)) = Inr True)"
proof (cases "batch_attempt d fs (fst kp) (snd kp)")
  case (Pair d' r)
  then show ?thesis by (cases r) (simp_all add: replace_one_def)
qed

lemma batch_append:
  "replace_images_batch d fs (xs @ ys)
     = (fst (replace_images_batch (fst (replace_images_batch d fs xs)) fs ys),
        snd (replace_images_batch d fs xs)
        @ snd (replace_images_batch (fst (replace_images_batch d fs xs)) fs ys))"
  by (induction xs arbitrary: d) simp_all

lemma batch_keys: "map fst (snd (replace_images_batch d fs reps)) = map fst reps"
  by (induction reps arbitrary: d) simp_all

lemma batch_length [simp]: "length (snd (replace_images_batch d fs reps)) = length reps"
  by (induction reps arbitrary: d) simp_all

lemma batch_around_key:
  "replace_images_batch d fs (xs @ kp # ys)
     = (fst (replace_images_batch
               (fst (batch_attempt (fst (replace_images_batch d fs xs)) fs (fst kp) (snd kp)))
               fs ys),
        snd (replace_images_batch d fs xs)
        @ (fst kp,
           snd (batch_attempt (fst (replace_images_batch d fs xs)) fs (fst kp) (snd kp)) = Inr True)
        # snd (replace_images_batch
                 (fst (batch_attempt (fst (replace_images_batch d fs xs)) fs (fst kp) (snd kp)))
                 fs ys))"
  by (simp add: batch_append [of d fs xs "kp # ys"] replace_one_attempt)

lemma batch_attempt_header:
  assumes "hd (py_split CHR ''_'' key) = ''header''" "2 \<le> length (py_split CHR ''_'' key)"
    and "py_int (py_split CHR ''_'' key ! 1) = Some s"
    and "(if 2 < length (py_split CHR ''_'' key) then py_int (py_split CHR ''_'' key ! 2)
          else Some 0) = Some n"
  shows "batch_attempt d fs key p = replace_header_image d fs s p n"
  using assms by (simp add: batch_attempt_def Let_def split: if_splits)

lemma batch_attempt_footer:
  assumes "hd (py_split CHR ''_'' key) = ''footer''" "2 \<le> length (py_split CHR ''_'' key)"
    and "py_int (py_split CHR ''_'' key ! 1) = Some s"
    and "(if 2 < length (py_split CHR ''_'' key) then py_int (py_split CHR ''_'' key ! 2)
          else Some 0) = Some n"
  shows "batch_attempt d fs key p = replace_footer_image d fs s p n"
  using assms by (simp add: batch_attempt_def Let_def split: if_splits)

lemma batch_attempt_body:
  assumes "hd (py_split CHR ''_'' key) = ''body''" "2 \<le> length (py_split CHR ''_'' key)"
    and "py_int (py_split CHR ''_'' key ! 1) = Some n"
  shows "batch_attempt d fs key p = replace_body_image_by_index d fs n p"
  using assms by (simp add: batch_attempt_def Let_def)

lemma batch_attempt_unknown:
  "hd (py_split CHR ''_'' key) \<notin> {''header'', ''footer'', ''body''}
   \<Longrightarrow> batch_attempt d fs key p = (d, Inr False)"
  by (simp add: batch_attempt_def Let_def)

lemma batch_attempt_unparseable:
  assumes "hd (py_split CHR ''_'' key) \<in> {''header'', ''footer'', ''body''}"
    and "length (py_split CHR ''_'' key) < 2 \<or> py_int (py_split CHR ''_'' key ! 1) = None
         \<or> (hd (py_split CHR ''_'' key) \<noteq> ''body'' \<and> 2 < length (py_split CHR ''_'' key)
             \<and> py_int (py_split CHR ''_'' key ! 2) = None)"
  shows "\<exists>e. batch_attempt d fs key p = (d, Inl e)"
  using assms by (auto simp: batch_attempt_def Let_def split: option.splits)

lemma batch_attempt_cases:
  "batch_attempt d fs key p = (d, Inl IndexError)
   \<or> batch_attempt d fs key p = (d, Inl ValueError)
   \<or> batch_attempt d fs key p = (d, Inr False)
   \<or> (\<exists>s i. batch_attempt d fs key p = replace_header_image d fs s p i)
   \<or> (\<exists>s i. batch_attempt d fs key p = replace_footer_image d fs s p i)
   \<or> (\<exists>i. batch_attempt d fs key p = replace_body_image_by_index d fs i p)"
  unfolding batch_attempt_def Let_def
  by (simp split: option.splits) blast

lemma batch_attempt_missing:
  assumes m: "fs p = Missing"
  shows "fst (batch_attempt d fs key p) = d \<and> snd (batch_attempt d fs key p) \<noteq> Inr True"
proof -
  have h: "replace_header_image d fs s p i = (d, Inr False)" for s i
    using m by (simp add: replace_header_image_def)
  have f: "replace_footer_image d fs s p i = (d, Inr False)" for s i
    using m by (simp add: replace_footer_image_def)
  have b: "replace_body_image_by_index d fs i p = (d, Inr False)" for i
    using m by (simp add: replace_body_image_by_index_def)
  from batch_attempt_cases [of d fs key p] show ?thesis
    by (elim disjE exE) (simp_all add: h f b)
qed

text \<open>
  Claim C9. \<^verbatim>\<open>replace_images_batch\<close> returns one boolean for every key of the mapping, in
  the order of the mapping. For a key anywhere in the mapping, the results of the keys
  before it are those of the batch of these keys alone; the key's own result is \<^verbatim>\<open>True\<close>
  exactly when its attempt (the body of the \<^verbatim>\<open>try\<close>, run on the document the earlier keys
  left) returned \<^verbatim>\<open>True\<close>, so it is \<^verbatim>\<open>False\<close> when the attempt returned \<^verbatim>\<open>False\<close> and when it
  raised; and whatever the attempt did, the keys after it are attempted, on the
  document the attempt left. The attempt of a key \<^verbatim>\<open>header_s_n\<close>, \<^verbatim>\<open>header_s\<close>,
  \<^verbatim>\<open>footer_s_n\<close>, \<^verbatim>\<open>footer_s\<close> or \<^verbatim>\<open>body_n\<close> is the call of the single replace method with the
  parsed indices (image index 0 when the key has none). A key with another location
  returns \<^verbatim>\<open>False\<close>; a key of a known location whose indices are missing or do not parse
  raises (stated for keys of printable ASCII characters, where \<open>py_int\<close> is \<^verbatim>\<open>int\<close>); an
  index not below the number of body images, or of sections, returns \<^verbatim>\<open>False\<close>; a missing
  file never gives \<^verbatim>\<open>True\<close> and leaves the document as it is.
\<close>

theorem replace_images_batch_isolation:
  "map fst (snd (replace_images_batch d fs reps)) = map fst reps
   \<and> replace_images_batch d fs (xs @ kp # ys)
     = (fst (replace_images_batch
               (fst (batch_attempt (fst (replace_images_batch d fs xs)) fs (fst kp) (snd kp)))
               fs ys),
        snd (replace_images_batch d fs xs)
        @ (fst kp,
           snd (batch_attempt (fst (replace_images_batch d fs xs)) fs (fst kp) (snd kp)) = Inr True)
        # snd (replace_images_batch
                 (fst (batch_attempt (fst (replace_images_batch d fs xs)) fs (fst kp) (snd kp)))
                 fs ys))
   \<and> ((\<exists>e. snd (batch_attempt (fst (replace_images_batch d fs xs)) fs (fst kp) (snd kp)) = Inl e)
        \<or> snd (batch_attempt (fst (replace_images_batch d fs xs)) fs (fst kp) (snd kp)) = Inr False
       \<longrightarrow>
        snd (replace_images_batch d fs (xs @ kp # ys)) ! length xs = (fst kp, False)
        \<and> take (length xs) (snd (replace_images_batch d fs (xs @ kp # ys)))
            = snd (replace_images_batch d fs xs)
        \<and> drop (Suc (length xs)) (snd (replace_images_batch d fs (xs @ kp # ys)))
            = snd (replace_images_batch
                     (fst (batch_attempt (fst (replace_images_batch d fs xs)) fs (fst kp) (snd kp)))
                     fs ys))
   \<and> (hd (py_split CHR ''_'' key) = ''header'' \<and> 2 \<le> length (py_split CHR ''_'' key)
        \<and> py_int (py_split CHR ''_'' key ! 1) = Some s
        \<and> (if 2 < length (py_split CHR ''_'' key) then py_int (py_split CHR ''_'' key ! 2)
            else Some 0) = Some n \<longrightarrow>
        batch_attempt d fs key p = replace_header_image d fs s p n)
   \<and> (hd (py_split CHR ''_'' key) = ''footer'' \<and> 2 \<le> length (py_split CHR ''_'' key)
        \<and> py_int (py_split CHR ''_'' key ! 1) = Some s
        \<and> (if 2 < length (py_split CHR ''_'' key) then py_int (py_split CHR ''_'' key ! 2)
            else Some 0) = Some n \<longrightarrow>
        batch_attempt d fs key p = replace_footer_image d fs s p n)
   \<and> (hd (py_split CHR ''_'' key) = ''body'' \<and> 2 \<le> length (py_split CHR ''_'' key)
        \<and> py_int (py_split CHR ''_'' key ! 1) = Some n \<longrightarrow>
        batch_attempt d fs key p = replace_body_image_by_index d fs n p)
   \<and> (hd (py_split CHR ''_'' key) \<notin> {''header'', ''footer'', ''body''} \<longrightarrow>
        batch_attempt d fs key p = (d, Inr False))
   \<and> (plain_ascii key \<and> hd (py_split CHR ''_'' key) \<in> {''header'', ''footer'', ''body''}
        \<and> (length (py_split CHR ''_'' key) < 2 \<or> py_int (py_split CHR ''_'' key ! 1) = None
            \<or> (hd (py_split CHR ''_'' key) \<noteq> ''body'' \<and> 2 < length (py_split CHR ''_'' key)
                \<and> py_int (py_split CHR ''_'' key ! 2) = None)) \<longrightarrow>
        (\<exists>e. batch_attempt d fs key p = (d, Inl e)))
   \<and> (hd (py_split CHR ''_'' key) = ''body'' \<and> 2 \<le> length (py_split CHR ''_'' key)
        \<and> py_int (py_split CHR ''_'' key ! 1) = Some n
        \<and> int (length (image_rels (body_rels d))) \<le> n \<longrightarrow>
        batch_attempt d fs key p = (d, Inr False))
   \<and> (hd (py_split CHR ''_'' key) \<in> {''header'', ''footer''}
        \<and> 2 \<le> length (py_split CHR ''_'' key)
        \<and> py_int (py_split CHR ''_'' key ! 1) = Some s
        \<and> (if 2 < length (py_split CHR ''_'' key) then py_int (py_split CHR ''_'' key ! 2)
            else Some 0) = Some n
        \<and> int (length (sections d)) \<le> s \<longrightarrow>
        batch_attempt d fs key p = (d, Inr False))
   \<and> (fs p = Missing \<longrightarrow>
        fst (batch_attempt d fs key p) = d \<and> snd (batch_attempt d fs key p) \<noteq> Inr True)"
proof (intro conjI impI)
  show "map fst (snd (replace_images_batch d fs reps)) = map fst reps" by (rule batch_keys)
  show "replace_images_batch d fs (xs @ kp # ys)
     = (fst (replace_images_batch
               (fst (batch_attempt (fst (replace_images_batch d fs xs)) fs (fst kp) (snd kp)))
               fs ys),
        snd (replace_images_batch d fs xs)
        @ (fst kp,
           snd (batch_attempt (fst (replace_images_batch d fs xs)) fs (fst kp) (snd kp)) = Inr True)
        # snd (replace_images_batch
                 (fst (batch_attempt (fst (replace_images_batch d fs xs)) fs (fst kp) (snd kp)))
                 fs ys))"
    by (rule batch_around_key)
  show "hd (py_split CHR ''_'' key) = ''header'' \<and> 2 \<le> length (py_split CHR ''_'' key)
        \<and> py_int (py_split CHR ''_'' key ! 1) = Some s
        \<and> (if 2 < length (py_split CHR ''_'' key) then py_int (py_split CHR ''_'' key ! 2)
            else Some 0) = Some n \<Longrightarrow>
        batch_attempt d fs key p = replace_header_image d fs s p n"
    by (intro batch_attempt_header) (elim conjE, assumption)+
  show "hd (py_split CHR ''_'' key) = ''footer'' \<and> 2 \<le> length (py_split CHR ''_'' key)
        \<and> py_int (py_split CHR ''_'' key ! 1) = Some s
        \<and> (if 2 < length (py_split CHR ''_'' key) then py_int (py_split CHR ''_'' key ! 2)
            else Some 0) = Some n \<Longrightarrow>
        batch_attempt d fs key p = replace_footer_image d fs s p n"
    by (intro batch_attempt_footer) (elim conjE, assumption)+
  show "hd (py_split CHR ''_'' key) = ''body'' \<and> 2 \<le> length (py_split CHR ''_'' key)
        \<and> py_int (py_split CHR ''_'' key ! 1) = Some n \<Longrightarrow>
        batch_attempt d fs key p = replace_body_image_by_index d fs n p"
    by (intro batch_attempt_body) (elim conjE, assumption)+
  show "hd (py_split CHR ''_'' key) \<notin> {''header'', ''footer'', ''body''} \<Longrightarrow>
        batch_attempt d fs key p = (d, Inr False)"
    by (rule batch_attempt_unknown)
  show "plain_ascii key \<and> hd (py_split CHR ''_'' key) \<in> {''header'', ''footer'', ''body''}
        \<and> (length (py_split CHR ''_'' key) < 2 \<or> py_int (py_split CHR ''_'' key ! 1) = None
            \<or> (hd (py_split CHR ''_'' key) \<noteq> ''body'' \<and> 2 < length (py_split CHR ''_'' key)
                \<and> py_int (py_split CHR ''_'' key ! 2) = None)) \<Longrightarrow>
        \<exists>e. batch_attempt d fs key p = (d, Inl e)"
    by (intro batch_attempt_unparseable) (elim conjE, assumption)+
  show "hd (py_split CHR ''_'' key) = ''body'' \<and> 2 \<le> length (py_split CHR ''_'' key)
        \<and> py_int (py_split CHR ''_'' key ! 1) = Some n
        \<and> int (length (image_rels (body_rels d))) \<le> n \<Longrightarrow>
        batch_attempt d fs key p = (d, Inr False)"
    by (simp add: batch_attempt_body replace_body_image_by_index_def swap_image_def)
  show "hd (py_split CHR ''_'' key) \<in> {''header'', ''footer''}
        \<and> 2 \<le> length (py_split CHR ''_'' key)
        \<and> py_int (py_split CHR ''_'' key ! 1) = Some s
        \<and> (if 2 < length (py_split CHR ''_'' key) then py_int (py_split CHR ''_'' key ! 2)
            else Some 0) = Some n
        \<and> int (length (sections d)) \<le> s \<Longrightarrow>
        batch_attempt d fs key p = (d, Inr False)"
    by (auto simp: batch_attempt_header batch_attempt_footer replace_header_image_def
        replace_footer_image_def)
  show "fs p = Missing \<Longrightarrow> fst (batch_attempt d fs key p) = d"
    by (simp add: batch_attempt_missing)
  show "fs p = Missing \<Longrightarrow> snd (batch_attempt d fs key p) \<noteq> Inr True"
    by (simp add: batch_attempt_missing)
next
  let ?a = "batch_attempt (fst (replace_images_batch d fs xs)) fs (fst kp) (snd kp)"
  assume f: "(\<exists>e. snd ?a = Inl e) \<or> snd ?a = Inr False"
  then have n: "(snd ?a = Inr True) = False" by auto
  have l: "length (snd (replace_images_batch d fs xs)) = length xs" by simp
  have k: "snd (replace_images_batch d fs (xs @ kp # ys))
      = snd (replace_images_batch d fs xs) @ (fst kp, False)
        # snd (replace_images_batch (fst ?a) fs ys)"
    by (simp only: batch_around_key n snd_conv)
  show "snd (replace_images_batch d fs (xs @ kp # ys)) ! length xs = (fst kp, False)"
    unfolding k using l by (metis nth_append_length)
  show "take (length xs) (snd (replace_images_batch d fs (xs @ kp # ys)))
            = snd (replace_images_batch d fs xs)"
    unfolding k using l by simp
  show "drop (Suc (length xs)) (snd (replace_images_batch d fs (xs @ kp # ys)))
            = snd (replace_images_batch (fst ?a) fs ys)"
    unfolding k using l by simp
qed

theorem replace_images_batch_isolation_witness:
  "snd (replace_images_batch image_doc image_fs
          [(''body_0'', ''new/stamp.svg''), (''header_0_0'', ''new/logo.webp''),
           (''body_5'', ''new/stamp.svg'')])
     = [(''body_0'', True), (''header_0_0'', True), (''body_5'', False)]
   \<and> snd (replace_images_batch image_doc image_fs
          [(''body_0'', ''new/chart.png''), (''header_0_0'', ''new/logo.webp'')])
     = [(''body_0'', False), (''header_0_0'', True)]"
proof -
  let ?xs = "[(''body_0'', ''new/stamp.svg''), (''header_0_0'', ''new/logo.webp'')]"
  let ?kp = "(''body_5'', ''new/stamp.svg'')"
  let ?d2 = "fst (replace_images_batch image_doc image_fs ?xs)"
  have x: "snd (replace_images_batch image_doc image_fs ?xs)
      = [(''body_0'', True), (''header_0_0'', True)]"
    by code_simp
  have c: "hd (py_split CHR ''_'' ''body_5'') = ''body'' \<and> 2 \<le> length (py_split CHR ''_'' ''body_5'')
        \<and> py_int (py_split CHR ''_'' ''body_5'' ! 1) = Some 5
        \<and> int (length (image_rels (body_rels ?d2))) \<le> 5"
    by code_simp
  note t = replace_images_batch_isolation [where fs = image_fs]
  from t [where d = ?d2 and key = "''body_5''" and n = 5 and p = "''new/stamp.svg''",
      THEN conjunct2, THEN conjunct2, THEN conjunct2, THEN conjunct2, THEN conjunct2,
      THEN conjunct2, THEN conjunct2, THEN conjunct2, THEN conjunct1, THEN mp, OF c]
  have a: "batch_attempt ?d2 image_fs ''body_5'' ''new/stamp.svg'' = (?d2, Inr False)" .
  then have f: "(\<exists>e. snd (batch_attempt ?d2 image_fs (fst ?kp) (snd ?kp)) = Inl e)
        \<or> snd (batch_attempt ?d2 image_fs (fst ?kp) (snd ?kp)) = Inr False"
    by (simp only: fst_conv snd_conv simp_thms)
  note u = t [where d = image_doc and xs = ?xs and kp = ?kp and ys = "[]",
      THEN conjunct2, THEN conjunct2, THEN conjunct1, THEN mp, OF f]
  define L where "L = snd (replace_images_batch image_doc image_fs (?xs @ [?kp]))"
  from u [THEN conjunct1] u [THEN conjunct2, THEN conjunct1]
  have n2: "L ! 2 = (''body_5'', False)"
    and tk: "take 2 L = [(''body_0'', True), (''header_0_0'', True)]"
    unfolding L_def
    by (simp_all only: x fst_conv list.size One_nat_def add_Suc_right add_0_right
        numeral_2_eq_2)
  have ln: "length L = 3" unfolding L_def by (simp only: batch_length) simp
  then have "drop 2 L = [L ! 2]" by (simp add: Cons_nth_drop_Suc [symmetric])
  with append_take_drop_id [of 2 L] n2 tk
  have "L = [(''body_0'', True), (''header_0_0'', True), (''body_5'', False)]" by simp
  then have 1: "snd (replace_images_batch image_doc image_fs (?xs @ [?kp]))
      = [(''body_0'', True), (''header_0_0'', True), (''body_5'', False)]"
    unfolding L_def .
  let ?kq = "(''body_0'', ''new/chart.png'')"
  let ?ys = "[(''header_0_0'', ''new/logo.webp'')]"
  have r: "snd (batch_attempt image_doc image_fs ''body_0'' ''new/chart.png'') = Inl AttributeError"
    by code_simp
  have y: "snd (replace_images_batch
             (fst (batch_attempt image_doc image_fs ''body_0'' ''new/chart.png'')) image_fs ?ys)
      = [(''header_0_0'', True)]"
    by code_simp
  from t [where d = image_doc and xs = "[]" and kp = ?kq and ys = ?ys,
      THEN conjunct2, THEN conjunct1, THEN arg_cong [where f = snd]]
  have 2: "snd (replace_images_batch image_doc image_fs ([] @ ?kq # ?ys))
      = [(''body_0'', False), (''header_0_0'', True)]"
    by (simp only: snd_conv r y fst_conv replace_images_batch.simps(1) append_Nil sum.simps
        simp_thms)
  from 1 2 show ?thesis by (simp only: append.simps) 
qed
section \<open>What \<^verbatim>\<open>replace_all\<close> does to the scanned paragraphs\<close>

lemma paragraphs_of_on_paragraphs:
  "paragraphs_of (fst (on_paragraphs f bs)) = map (\<lambda>p. fst (f p)) (paragraphs_of bs)"
  by (induction bs rule: paragraphs_of.induct) (simp_all add: on_paragraphs_def map_count_def)

lemma tables_of_on_paragraphs:
  "tables_of (fst (on_paragraphs f bs)) = tables_of bs"
  by (induction bs rule: paragraphs_of.induct) (simp_all add: on_paragraphs_def map_count_def)

lemma snd_on_paragraphs:
  "snd (on_paragraphs f bs) = sum_list (map (\<lambda>p. snd (f p)) (paragraphs_of bs))"
  by (induction bs rule: paragraphs_of.induct) (simp_all add: on_paragraphs_def map_count_def)

lemma snd_on_tables:
  "snd (on_tables f bs) = sum_list (map (\<lambda>t. snd (f t)) (tables_of bs))"
  by (induction bs rule: paragraphs_of.induct) (simp_all add: on_tables_def map_count_def)

lemma tr_lst_on_rows: "tr_lst (fst (on_rows f t)) = map (\<lambda>r. fst (f r)) (tr_lst t)"
  by (induction t rule: tr_lst.induct) (simp_all add: on_rows_def map_count_def)

lemma snd_on_rows: "snd (on_rows f t) = sum_list (map (\<lambda>r. snd (f r)) (tr_lst t))"
  by (induction t rule: tr_lst.induct) (simp_all add: on_rows_def map_count_def)

lemma sum_list_concat_map:
  "sum_list (map g (concat (map h xs))) = sum_list (map (\<lambda>x. sum_list (map g (h x))) xs)"
  by (induction xs) simp_all

lemma table_cell_paragraphs_replace:
  "table_cell_paragraphs (fst (replace_in_table t data pf))
     = map (\<lambda>p. fst (replace_in_paragraph data pf p)) (table_cell_paragraphs t)"
  by (simp add: table_cell_paragraphs_def replace_in_table_def tr_lst_on_rows
      replace_in_paragraphs_def paragraphs_of_on_paragraphs map_concat comp_def)

lemma snd_replace_in_table:
  "snd (replace_in_table t data pf)
     = sum_list (map (\<lambda>p. snd (replace_in_paragraph data pf p)) (table_cell_paragraphs t))"
  by (simp add: table_cell_paragraphs_def replace_in_table_def snd_on_rows
      replace_in_paragraphs_def snd_on_paragraphs sum_list_concat_map comp_def)

lemma hf_paragraphs_replace:
  "hf_paragraphs (fst (replace_in_hf data pf h))
     = map (\<lambda>p. fst (replace_in_paragraph data pf p)) (hf_paragraphs h)"
  by (cases h) (simp_all add: hf_paragraphs_def replace_in_hf_def replace_in_paragraphs_def
      paragraphs_of_on_paragraphs)

lemma snd_replace_in_hf:
  "snd (replace_in_hf data pf h)
     = sum_list (map (\<lambda>p. snd (replace_in_paragraph data pf p)) (hf_paragraphs h))"
  by (cases h) (simp_all add: hf_paragraphs_def replace_in_hf_def replace_in_paragraphs_def
      snd_on_paragraphs)

lemma replace_all_nonstrict:
  "replace_all d data False pf =
     (d\<lparr>body := fst (on_tables (\<lambda>t. replace_in_table t data pf)
                       (fst (replace_in_paragraphs (body d) data pf))),
        sections := map (\<lambda>s. fst (replace_in_section data pf s)) (sections d)\<rparr>,
      Inr (snd (replace_in_paragraphs (body d) data pf)
           + snd (on_tables (\<lambda>t. replace_in_table t data pf)
                    (fst (replace_in_paragraphs (body d) data pf)))
           + sum_list (map (\<lambda>s. snd (replace_in_section data pf s)) (sections d))))"
  by (simp add: replace_all_def Let_def map_count_def)

lemma scanned_paragraphs_replace_all:
  "scanned_paragraphs (fst (replace_all d data False pf))
     = map (\<lambda>p. fst (replace_in_paragraph data pf p)) (scanned_paragraphs d)"
  by (simp add: replace_all_nonstrict scanned_paragraphs_def replace_in_paragraphs_def
      paragraphs_of_on_paragraphs tables_of_on_paragraphs fst_on_tables_paragraphs
      tables_of_on_tables table_cell_paragraphs_replace map_concat comp_def
      replace_in_section_def hf_paragraphs_replace)

lemma count_replace_all:
  "snd (replace_all d data False pf)
     = Inr (sum_list (map (\<lambda>p. snd (replace_in_paragraph data pf p)) (scanned_paragraphs d)))"
  by (simp add: replace_all_nonstrict scanned_paragraphs_def replace_in_paragraphs_def
      snd_on_paragraphs snd_on_tables tables_of_on_paragraphs snd_replace_in_table
      sum_list_concat_map comp_def replace_in_section_def snd_replace_in_hf)

lemma pattern_search_iff: "pattern_search s \<longleftrightarrow> (\<exists>n. is_name n \<and> py_in (token n) s)"
proof -
  have "findall s \<noteq> [] \<longleftrightarrow> set (findall s) \<noteq> {}" by simp
  then show ?thesis unfolding pattern_search_def set_findall by blast
qed

lemma py_in_append_left: "py_in p s \<Longrightarrow> py_in p (a @ s @ b)"
proof -
  assume "py_in p s"
  then obtain x y where "s = x @ p @ y" using py_in_iff by blast
  then have "a @ s @ b = (a @ x) @ p @ (y @ b)" by simp
  then show ?thesis using py_in_iff by blast
qed

lemma py_in_concat: "s \<in> set ss \<Longrightarrow> py_in p s \<Longrightarrow> py_in p (concat ss)"
proof -
  assume "s \<in> set ss" "py_in p s"
  from \<open>s \<in> set ss\<close> obtain xs ys where "ss = xs @ s # ys" by (meson split_list)
  then have "concat ss = concat xs @ s @ concat ys" by simp
  with \<open>py_in p s\<close> show ?thesis by (simp add: py_in_append_left)
qed

text \<open>The check of the paragraph text before the runs are visited changes nothing.\<close>

lemma replace_in_runs_no_match:
  assumes "\<not> pattern_search (para_text p)"
  shows "replace_in_runs p data = (p, 0)"
proof -
  have "\<not> pattern_search (run_text r)" if "r \<in> set (runs p)" for r
  proof
    assume "pattern_search (run_text r)"
    then obtain n where "is_name n" "py_in (token n) (run_text r)" using pattern_search_iff by blast
    moreover have "run_text r \<in> set (map run_text (runs p))" using that by simp
    ultimately have "py_in (token n) (para_text p)"
      unfolding para_text_def by (metis py_in_concat)
    with \<open>is_name n\<close> assms show False using pattern_search_iff by blast
  qed
  then have "\<forall>r\<in>set (runs p). replace_in_run data r = (r, 0)"
    by (simp add: replace_in_run_def)
  then have "map (\<lambda>r. fst (replace_in_run data r)) (runs p) = runs p"
    and "sum_list (map (\<lambda>r. snd (replace_in_run data r)) (runs p)) = 0"
    by (simp_all add: map_idI)
  then show ?thesis by (simp add: replace_in_runs_def)
qed

lemma replace_in_paragraph_preserving:
  "replace_in_paragraph data True p = replace_in_runs p data"
  by (simp add: replace_in_paragraph_def replace_in_runs_no_match)

lemma findall_Nil [simp]: "findall [] = []"
  by (simp add: findall.simps)

lemma replace_in_run_empty: "run_text r = [] \<Longrightarrow> fst (replace_in_run data r) = r"
  by (simp add: replace_in_run_def pattern_search_def)

text \<open>A token of a name without data, anywhere in the text of a paragraph, also across
  runs, is still there after the runs have been visited.\<close>

lemma runs_keep_token:
  assumes n: "is_name n" "n \<notin> set (map fst data)" and ks: "\<forall>k\<in>set (map fst data). is_name k"
  shows "token n = x @ u \<Longrightarrow> concat (map run_text rs) = a @ u @ B \<Longrightarrow> (x \<noteq> [] \<longrightarrow> a = [])
    \<Longrightarrow> \<exists>a' B'. concat (map (\<lambda>r. run_text (fst (replace_in_run data r))) rs) = a' @ u @ B'
          \<and> (a = [] \<longrightarrow> a' = [])"
proof (induction rs arbitrary: x u a B)
  case Nil
  then show ?case by simp
next
  case (Cons r rs)
  let ?g = "\<lambda>r. run_text (fst (replace_in_run data r))"
  let ?C = "concat (map run_text rs)"
  from Cons.prems(2) have e: "run_text r @ ?C = a @ (u @ B)" by simp
  then consider (before) us where "run_text r @ us = a" "?C = us @ u @ B"
    | (inside) us where "run_text r = a @ us" "us @ ?C = u @ B"
    by (auto simp: append_eq_append_conv2)
  then show ?case
  proof cases
    case before
    have xa: "x \<noteq> [] \<longrightarrow> us = []" using Cons.prems(3) before(1) by auto
    from Cons.IH [OF Cons.prems(1) before(2) xa] obtain a2 B' where
      c: "concat (map ?g rs) = a2 @ u @ B'" and a2: "us = [] \<longrightarrow> a2 = []" by blast
    have "a = [] \<longrightarrow> ?g r = [] \<and> us = []"
      using before(1) by (auto simp: replace_in_run_empty)
    with c a2 have "concat (map ?g (r # rs)) = (?g r @ a2) @ u @ B' \<and> (a = [] \<longrightarrow> ?g r @ a2 = [])"
      by simp
    then show ?thesis by blast
  next
    case inside
    from inside(2) consider (whole) vs where "us = u @ vs" "vs @ ?C = B"
      | (part) vs where "us @ vs = u" "?C = vs @ B"
      by (auto simp: append_eq_append_conv2)
    then show ?thesis
    proof cases
      case whole
      have t: "token n = x @ u @ []" using Cons.prems(1) by simp
      have rt: "run_text r = a @ u @ vs" using inside(1) whole(1) by simp
      from replace_in_run_segment [OF n(1) t ks Cons.prems(3) _ _ rt] n(2)
      obtain a' b' where "?g r = a' @ u @ b'" and "a = [] \<longrightarrow> a' = []" by auto
      then have "concat (map ?g (r # rs)) = a' @ u @ (b' @ concat (map ?g rs)) \<and> (a = [] \<longrightarrow> a' = [])"
        by simp
      then show ?thesis by blast
    next
      case part
      have t: "token n = x @ us @ vs" using Cons.prems(1) part(1) by simp
      have rt: "run_text r = a @ us @ []" using inside(1) by simp
      from replace_in_run_segment [OF n(1) t ks Cons.prems(3) _ _ rt] n(2)
      obtain a' where g: "?g r = a' @ us" and a': "a = [] \<longrightarrow> a' = []" by auto
      have t2: "token n = (x @ us) @ vs" using t by simp
      have c2: "?C = [] @ vs @ B" using part(2) by simp
      from Cons.IH [OF t2 c2] obtain B' where "concat (map ?g rs) = vs @ B'" by auto
      with g part(1) have "concat (map ?g (r # rs)) = a' @ u @ B'" by auto
      with a' show ?thesis by blast
    qed
  qed
qed

lemma para_text_replace_in_runs:
  "para_text (fst (replace_in_runs p data))
     = concat (map (\<lambda>r. run_text (fst (replace_in_run data r))) (runs p))"
  by (simp add: para_text_def replace_in_runs_def comp_def)

lemma para_text_set_para_text [simp]: "para_text (set_para_text p t) = t"
  by (simp add: para_text_def set_para_text_def)

lemma paragraph_keeps_token:
  assumes n: "is_name n" "n \<notin> set (map fst data)" and ks: "\<forall>k\<in>set (map fst data). is_name k"
    and i: "py_in (token n) (para_text p)"
  shows "py_in (token n) (para_text (fst (replace_in_paragraph data pf p)))"
proof -
  from i obtain a B where ab: "para_text p = a @ token n @ B" using py_in_iff by blast
  have ps: "pattern_search (para_text p)" using n(1) i pattern_search_iff by blast
  show ?thesis
  proof (cases pf)
    case True
    have t: "token n = [] @ token n" by simp
    have c: "concat (map run_text (runs p)) = a @ token n @ B" using ab by (simp add: para_text_def)
    from runs_keep_token [OF n ks t c] obtain a' B' where
      "concat (map (\<lambda>r. run_text (fst (replace_in_run data r))) (runs p)) = a' @ token n @ B'"
      by auto
    then have "para_text (fst (replace_in_runs p data)) = a' @ token n @ B'"
      by (simp add: para_text_replace_in_runs)
    then show ?thesis using True py_in_iff by (auto simp: replace_in_paragraph_preserving)
  next
    case False
    have t: "token n = [] @ token n @ []" by simp
    from replace_keys_segment [OF n(1) t ks, of a B] n(2) obtain a' b' where
      "fst (replace_keys data (a @ token n @ B)) = a' @ token n @ b'" by auto
    then show ?thesis using False ps ab py_in_iff by (auto simp: replace_in_paragraph_def)
  qed
qed

lemma missing_names_stay:
  assumes ks: "\<forall>k\<in>set (map fst data). is_name k"
    and n: "n \<in> find_all_placeholders d - set (map fst data)"
  shows "n \<in> find_all_placeholders (fst (replace_all d data False pf))"
proof -
  from n obtain p where nn: "is_name n" and p: "p \<in> set (scanned_paragraphs d)"
    and i: "py_in (token n) (para_text p)" and nk: "n \<notin> set (map fst data)"
    by (auto simp: find_all_placeholders_def set_placeholders_in)
  from paragraph_keeps_token [OF nn nk ks i]
  have "py_in (token n) (para_text (fst (replace_in_paragraph data pf p)))" .
  moreover have "fst (replace_in_paragraph data pf p) \<in> set (scanned_paragraphs (fst (replace_all d data False pf)))"
    using p by (simp add: scanned_paragraphs_replace_all)
  ultimately show ?thesis using nn
    unfolding find_all_placeholders_def set_placeholders_in by blast
qed

lemma repl_skip:
  "c0 \<notin> set l \<Longrightarrow> repl (c0 # p') v (l @ s) = l @ repl (c0 # p') v s"
  by (induction l) auto

lemma repl_absent: "\<not> py_in p s \<Longrightarrow> repl p v s = s"
  by (induction s) auto

lemma fst_replace_keys_Cons:
  "fst (replace_keys ((k, v) # rest) t) = fst (replace_keys rest (repl (token k) v t))"
  by (simp add: repl_absent)

lemma snd_replace_keys_le: "snd (replace_keys data t) \<le> length data"
  by (induction data arbitrary: t) (auto simp: le_SucI)

lemma substitute_Nil [simp]: "substitute [] s = s"
  by (cases s) simp_all

lemma render_Cons [simp]: "render (s # segs) = render_seg s @ render segs"
  by (simp add: render_def)

lemma render_Nil [simp]: "render [] = []"
  by (simp add: render_def)

lemma repl_token_render:
  assumes "is_name k"
  shows "list_all plain_seg segs
    \<Longrightarrow> repl (token k) v (render segs) = render (map (substitute [(k, v)]) segs)"
proof (induction segs)
  case Nil
  show ?case by simp
next
  case (Cons s segs)
  then have IH: "repl (token k) v (render segs) = render (map (substitute [(k, v)]) segs)" by simp
  show ?case
  proof (cases s)
    case (Lit l)
    with Cons.prems have "CHR ''{'' \<notin> set l" by simp
    then have "repl (token k) v (l @ render segs) = l @ repl (token k) v (render segs)"
      unfolding token_Cons by (rule repl_skip)
    with IH Lit show ?thesis by simp
  next
    case (Tok n)
    with Cons.prems have n: "is_name n" by simp
    show ?thesis
    proof (cases "n = k")
      case True
      have "repl (token k) v (token k @ render segs) = v @ repl (token k) v (render segs)"
        by (rule repl_prefix) simp
      with IH Tok True show ?thesis by simp
    next
      case False
      have t: "token n = [] @ token n @ []" by simp
      from repl_through_piece [OF assms n t, of "render segs" v] False
      have "repl (token k) v (token n @ render segs) = token n @ repl (token k) v (render segs)"
        by auto
      with IH Tok False show ?thesis by simp
    qed
  qed
qed

lemma plain_substitute:
  "CHR ''{'' \<notin> set v \<Longrightarrow> list_all plain_seg segs
   \<Longrightarrow> list_all plain_seg (map (substitute [(k, v)]) segs)"
proof (induction segs)
  case Nil
  show ?case by simp
next
  case (Cons s segs)
  then show ?case by (cases s) auto
qed

lemma substitute_substitute:
  "substitute rest (substitute [(k, v)] s) = substitute ((k, v) # rest) s"
  by (cases s) auto

lemma replace_keys_render:
  "\<forall>kv\<in>set data. is_name (fst kv) \<and> CHR ''{'' \<notin> set (snd kv) \<Longrightarrow> list_all plain_seg segs
   \<Longrightarrow> fst (replace_keys data (render segs)) = render (map (substitute data) segs)"
proof (induction data arbitrary: segs)
  case Nil
  show ?case by (simp add: map_idI)
next
  case (Cons kv data)
  obtain k v where kv: "kv = (k, v)" by (cases kv)
  from Cons.prems(1) kv have k: "is_name k" and v: "CHR ''{'' \<notin> set v"
    and rest: "\<forall>kv\<in>set data. is_name (fst kv) \<and> CHR ''{'' \<notin> set (snd kv)" by auto
  let ?segs1 = "map (substitute [(k, v)]) segs"
  have "fst (replace_keys (kv # data) (render segs)) = fst (replace_keys data (render ?segs1))"
    unfolding kv fst_replace_keys_Cons by (simp only: repl_token_render [OF k Cons.prems(2)])
  also have "\<dots> = render (map (substitute data) ?segs1)"
    by (rule Cons.IH [OF rest plain_substitute [OF v Cons.prems(2)]])
  also have "map (substitute data) ?segs1 = map (substitute (kv # data)) segs"
    by (simp add: kv substitute_substitute)
  finally show ?case .
qed

lemma no_match_no_token:
  "\<not> pattern_search (render segs) \<Longrightarrow> list_all plain_seg segs \<Longrightarrow> map (substitute data) segs = segs"
proof (induction segs)
  case Nil
  show ?case by simp
next
  case (Cons s segs)
  have tail: "\<not> pattern_search (render segs)"
  proof
    assume "pattern_search (render segs)"
    then obtain n where "is_name n" "py_in (token n) (render segs)" using pattern_search_iff by blast
    then have "py_in (token n) (render_seg s @ render segs @ [])" by (intro py_in_append_left)
    with \<open>is_name n\<close> Cons.prems(1) show False using pattern_search_iff by auto
  qed
  show ?case
  proof (cases s)
    case (Lit l)
    with Cons tail show ?thesis by simp
  next
    case (Tok n)
    with Cons.prems(2) have n: "is_name n" by simp
    have "py_in (token n) ([] @ token n @ render segs)" using py_in_iff by blast
    with n Tok Cons.prems(1) show ?thesis using pattern_search_iff by auto
  qed
qed

lemma replace_in_run_render:
  assumes "\<forall>kv\<in>set data. is_name (fst kv) \<and> CHR ''{'' \<notin> set (snd kv)"
    and "list_all plain_seg segs" and "run_text r = render segs"
  shows "fst (replace_in_run data r) = r\<lparr>run_text := render (map (substitute data) segs)\<rparr>"
proof (cases "pattern_search (run_text r)")
  case True
  with replace_keys_render [OF assms(1,2)] assms(3) show ?thesis
    by (simp add: replace_in_run_def)
next
  case False
  with no_match_no_token [of segs data] assms(2,3) show ?thesis
    by (simp add: replace_in_run_def)
qed

lemma replace_in_run_single:
  assumes "is_name k"
  shows "replace_in_run [(k, v)] r
     = (r\<lparr>run_text := py_replace (token k) v (run_text r)\<rparr>,
        if py_in (token k) (run_text r) then 1 else 0)"
proof (cases "py_in (token k) (run_text r)")
  case True
  with assms have "pattern_search (run_text r)" using pattern_search_iff by blast
  with True show ?thesis by (simp add: replace_in_run_def)
next
  case False
  then show ?thesis by (simp add: replace_in_run_def repl_absent)
qed

lemma scanned_paragraphs_preserving:
  "scanned_paragraphs (fst (replace_all d data False True))
     = map (\<lambda>p. p\<lparr>runs := map (\<lambda>r. fst (replace_in_run data r)) (runs p)\<rparr>) (scanned_paragraphs d)"
  by (simp add: scanned_paragraphs_replace_all replace_in_paragraph_preserving replace_in_runs_def)

lemma count_preserving:
  "snd (replace_all d data False True)
     = Inr (sum_list (map (\<lambda>r. snd (replace_in_run data r)) (concat (map runs (scanned_paragraphs d)))))"
  by (simp add: count_replace_all replace_in_paragraph_preserving replace_in_runs_def
      sum_list_concat_map)


section \<open>The text and the count of one pass over the keys\<close>

lemma replaced_text_Nil [simp]: "replaced_text [] t = t"
  by (simp add: replaced_text_def)

lemma replaced_text_Cons:
  "replaced_text ((k, v) # rest) t = replaced_text rest (repl (token k) v t)"
  by (simp add: replaced_text_def)

lemma fst_replace_keys: "fst (replace_keys data t) = replaced_text data t"
proof (induction data arbitrary: t)
  case Nil
  show ?case by simp
next
  case (Cons kv data)
  obtain k v where kv: "kv = (k, v)" by (cases kv)
  show ?case unfolding kv fst_replace_keys_Cons replaced_text_Cons by (rule Cons.IH)
qed

lemma snd_replace_keys_Cons:
  "snd (replace_keys ((k, v) # rest) t)
     = (if py_in (token k) t then 1 else 0) + snd (replace_keys rest (repl (token k) v t))"
  by (simp add: repl_absent)

text \<open>The count is the number of keys whose token is in the text when the key is
  reached.\<close>

lemma snd_replace_keys:
  "snd (replace_keys data t)
     = length (filter (\<lambda>i. py_in (token (fst (data ! i))) (replaced_text (take i data) t))
                 [0..<length data])"
proof (induction data arbitrary: t)
  case Nil
  show ?case by simp
next
  case (Cons kv data)
  obtain k v where kv: "kv = (k, v)" by (cases kv)
  let ?P = "\<lambda>i. py_in (token (fst ((kv # data) ! i))) (replaced_text (take i (kv # data)) t)"
  let ?Q = "\<lambda>i. py_in (token (fst (data ! i))) (replaced_text (take i data) (repl (token k) v t))"
  have u: "[0..<length (kv # data)] = 0 # map Suc [0..<length data]"
    by (simp add: upt_conv_Cons map_Suc_upt del: upt_Suc)
  have s: "?P (Suc i) = ?Q i" for i
    by (simp add: kv replaced_text_Cons)
  have z: "?P 0 = py_in (token k) t" by (simp add: kv)
  have "length (filter ?P [0..<length (kv # data)])
      = (if py_in (token k) t then 1 else 0) + length (filter ?Q [0..<length data])"
    unfolding u by (simp only: filter.simps z filter_map comp_def s length_map) simp
  also have "\<dots> = snd (replace_keys (kv # data) t)"
    unfolding kv snd_replace_keys_Cons by (simp only: Cons.IH)
  finally show ?case by simp
qed

lemma replace_in_run_pass:
  "pattern_search (run_text r) \<Longrightarrow>
   replace_in_run data r
     = (r\<lparr>run_text := replaced_text data (run_text r)\<rparr>,
        length (filter (\<lambda>i. py_in (token (fst (data ! i)))
                                (replaced_text (take i data) (run_text r)))
                  [0..<length data]))"
  by (simp add: replace_in_run_def fst_replace_keys snd_replace_keys)

section \<open>Tokens of a template\<close>

lemma length_repl_empty: "length (repl p [] s) \<le> length s"
proof (induction p "[]::string" s rule: repl.induct)
  case (1 p)
  show ?case by simp
next
  case (2 p c s)
  show ?case
  proof (cases "p \<noteq> [] \<and> prefix p (c # s)")
    case True
    with 2(1) have "length (repl p [] (drop (length p) (c # s))) \<le> length (drop (length p) (c # s))"
      by simp
    with True show ?thesis by simp
  next
    case False
    with 2(2) have "length (repl p [] s) \<le> length s" by simp
    with False show ?thesis by auto
  qed
qed

lemma repl_empty_shorter: "p \<noteq> [] \<Longrightarrow> py_in p s \<Longrightarrow> length (repl p [] s) < length s"
proof (induction s)
  case Nil
  then show ?case by simp
next
  case (Cons c s)
  show ?case
  proof (cases "prefix p (c # s)")
    case True
    have "length (repl p [] (drop (length p) (c # s))) \<le> length (drop (length p) (c # s))"
      by (rule length_repl_empty)
    also have "\<dots> < length (c # s)" using Cons.prems(1) by (cases p) simp_all
    finally show ?thesis using True Cons.prems(1) by simp
  next
    case False
    with Cons.prems(2) have "py_in p s" by simp
    from Cons.IH [OF Cons.prems(1) this] False show ?thesis by simp
  qed
qed

lemma substitute_other: "Tok k \<notin> set segs \<Longrightarrow> map (substitute [(k, v)]) segs = segs"
proof (induction segs)
  case Nil
  show ?case by simp
next
  case (Cons s segs)
  then show ?case by (cases s) auto
qed

lemma tok_substitute:
  "k' \<noteq> k \<Longrightarrow> Tok k' \<in> set (map (substitute [(k, v)]) segs) \<longleftrightarrow> Tok k' \<in> set segs"
proof (induction segs)
  case Nil
  show ?case by simp
next
  case (Cons s segs)
  then show ?case by (cases s) auto
qed

text \<open>In a template, the token of a name occurs in the text exactly when it is one of
  the pieces.\<close>

lemma py_in_token_render:
  assumes "is_name n" "list_all plain_seg segs"
  shows "py_in (token n) (render segs) \<longleftrightarrow> Tok n \<in> set segs"
proof
  assume i: "py_in (token n) (render segs)"
  show "Tok n \<in> set segs"
  proof (rule ccontr)
    assume "Tok n \<notin> set segs"
    then have "map (substitute [(n, [])]) segs = segs" by (rule substitute_other)
    with repl_token_render [OF assms, of "[]"] have "repl (token n) [] (render segs) = render segs"
      by simp
    moreover from repl_empty_shorter [OF _ i]
    have "length (repl (token n) [] (render segs)) < length (render segs)" by simp
    ultimately show False by simp
  qed
next
  assume "Tok n \<in> set segs"
  then obtain xs ys where "segs = xs @ Tok n # ys" by (meson split_list)
  then have "render segs = render xs @ token n @ render ys" by (simp add: render_def)
  then show "py_in (token n) (render segs)" using py_in_iff by blast
qed

lemma snd_replace_keys_render:
  "\<forall>kv\<in>set data. is_name (fst kv) \<and> CHR ''{'' \<notin> set (snd kv) \<Longrightarrow> distinct (map fst data)
   \<Longrightarrow> list_all plain_seg segs
   \<Longrightarrow> snd (replace_keys data (render segs))
        = length (filter (\<lambda>kv. py_in (token (fst kv)) (render segs)) data)"
proof (induction data arbitrary: segs)
  case Nil
  show ?case by simp
next
  case (Cons kv data)
  obtain k v where kv: "kv = (k, v)" by (cases kv)
  from Cons.prems(1) kv have k: "is_name k" and v: "CHR ''{'' \<notin> set v"
    and rest: "\<forall>kv\<in>set data. is_name (fst kv) \<and> CHR ''{'' \<notin> set (snd kv)" by auto
  from Cons.prems(2) kv have nk: "k \<notin> set (map fst data)" and dist: "distinct (map fst data)"
    by auto
  let ?segs1 = "map (substitute [(k, v)]) segs"
  have p1: "list_all plain_seg ?segs1" by (rule plain_substitute [OF v Cons.prems(3)])
  have same: "py_in (token (fst x)) (render ?segs1) = py_in (token (fst x)) (render segs)"
    if "x \<in> set data" for x
  proof -
    from that rest have n: "is_name (fst x)" by blast
    from that nk have "fst x \<noteq> k" by auto
    from tok_substitute [OF this, of v segs] show ?thesis
      by (simp only: py_in_token_render [OF n p1] py_in_token_render [OF n Cons.prems(3)])
  qed
  have "snd (replace_keys (kv # data) (render segs))
      = (if py_in (token k) (render segs) then 1 else 0) + snd (replace_keys data (render ?segs1))"
    unfolding kv snd_replace_keys_Cons by (simp only: repl_token_render [OF k Cons.prems(3)])
  also have "snd (replace_keys data (render ?segs1))
      = length (filter (\<lambda>kv. py_in (token (fst kv)) (render ?segs1)) data)"
    by (rule Cons.IH [OF rest dist p1])
  also have "filter (\<lambda>kv. py_in (token (fst kv)) (render ?segs1)) data
      = filter (\<lambda>kv. py_in (token (fst kv)) (render segs)) data"
    by (rule filter_cong [OF refl]) (rule same)
  finally show ?case by (simp add: kv)
qed

lemma replace_in_run_template:
  assumes d: "\<forall>kv\<in>set data. is_name (fst kv) \<and> CHR ''{'' \<notin> set (snd kv)"
    and dist: "distinct (map fst data)"
    and p: "list_all plain_seg segs" and t: "run_text r = render segs"
  shows "replace_in_run data r
     = (r\<lparr>run_text := render (map (substitute data) segs)\<rparr>,
        length (filter (\<lambda>kv. py_in (token (fst kv)) (run_text r)) data))"
proof (cases "pattern_search (run_text r)")
  case True
  then show ?thesis
    by (simp add: replace_in_run_def t replace_keys_render [OF d p]
        snd_replace_keys_render [OF d dist p])
next
  case False
  have "\<not> py_in (token (fst kv)) (run_text r)" if "kv \<in> set data" for kv
    using that d False pattern_search_iff by blast
  then have "filter (\<lambda>kv. py_in (token (fst kv)) (run_text r)) data = []"
    by (simp add: filter_empty_conv)
  moreover from False have "replace_in_run data r = (r, 0)" by (simp add: replace_in_run_def)
  moreover from replace_in_run_render [OF d p t] \<open>replace_in_run data r = (r, 0)\<close>
  have "r\<lparr>run_text := render (map (substitute data) segs)\<rparr> = r" by simp
  ultimately show ?thesis by simp
qed

section \<open>The mode that does not preserve the format\<close>

lemma replace_in_paragraph_plain:
  "fst (replace_in_paragraph data False p)
     = (if pattern_search (para_text p)
        then set_para_text p (replaced_text data (para_text p)) else p)"
  by (simp add: replace_in_paragraph_def fst_replace_keys)

lemma replace_in_paragraph_render:
  assumes "\<forall>kv\<in>set data. is_name (fst kv) \<and> CHR ''{'' \<notin> set (snd kv)"
    and "list_all plain_seg segs" and "para_text p = render segs"
  shows "para_text (fst (replace_in_paragraph data False p)) = render (map (substitute data) segs)"
proof (cases "pattern_search (para_text p)")
  case True
  with replace_keys_render [OF assms(1,2)] assms(3) show ?thesis
    by (simp add: replace_in_paragraph_def)
next
  case False
  with no_match_no_token [of segs data] assms(2,3) show ?thesis
    by (simp add: replace_in_paragraph_def)
qed
section \<open>Expansion touches the body only (claim C10)\<close>

text \<open>
  Claim C10. \<^verbatim>\<open>expand_dynamic_lists\<close> leaves every section (its header and its footer)
  and every table of the body as it is, whatever tokens their paragraphs hold;
  \<^verbatim>\<open>expand_dynamic_tables\<close> leaves every section and every paragraph of the body as it
  is.
\<close>

theorem dynamic_expansion_body_only:
  "sections (fst (expand_dynamic_lists str_obj d data)) = sections d
   \<and> tables_of (body (fst (expand_dynamic_lists str_obj d data))) = tables_of (body d)
   \<and> sections (fst (expand_dynamic_tables d data)) = sections d
   \<and> paragraphs_of (body (fst (expand_dynamic_tables d data))) = paragraphs_of (body d)"
  by (simp add: expand_dynamic_lists_def expand_dynamic_tables_def Let_def
      tables_of_fold_expand fst_on_tables_paragraphs)

section \<open>Strict and non-strict substitution (claim C1)\<close>

text \<open>
  Claim C1, as the code has it. In strict mode, when a name found by the scanner has no
  value in the mapping, \<^verbatim>\<open>replace_all\<close> raises the data error with the missing names and the
  document is the one before the call; when no name is missing, strict mode does what
  non-strict mode does. In non-strict mode \<^verbatim>\<open>replace_all\<close> always returns a count. With a
  mapping whose keys are names of the grammar, every name that the scanner found and
  that has no value is still found by the scanner afterwards, also when its token is
  spread over several runs. In the format-preserving mode every run of every scanned
  paragraph is replaced by what \<^verbatim>\<open>_replace_in_runs\<close> makes of it: a run with a match of the
  pattern gets the text that \<^verbatim>\<open>str.replace\<close>, applied for each key in turn, makes of its
  text. In the other mode every scanned paragraph with a match of the pattern gets, as
  its one run, the text that the same replacements make of the paragraph text. A text
  that is a template (literal pieces without an opening brace and tokens of names),
  with names as keys and values without an opening brace, ends in both modes as the
  same template with every token of a key replaced by its value and every other token
  left as it is.
\<close>

theorem replace_all_strict_atomic:
  "(find_all_placeholders d - set (map fst data) \<noteq> {} \<longrightarrow>
       replace_all d data True pf
         = (d, Inl (MissingData (find_all_placeholders d - set (map fst data)))))
   \<and> (find_all_placeholders d - set (map fst data) = {} \<longrightarrow>
       replace_all d data True pf = replace_all d data False pf)
   \<and> (\<exists>d' c. replace_all d data False pf = (d', Inr c))
   \<and> ((\<forall>k\<in>set (map fst data). is_name k) \<longrightarrow>
        find_all_placeholders d - set (map fst data)
          \<subseteq> find_all_placeholders (fst (replace_all d data False pf)))
   \<and> scanned_paragraphs (fst (replace_all d data False True))
        = map (\<lambda>p. p\<lparr>runs := map (\<lambda>r. fst (replace_in_run data r)) (runs p)\<rparr>)
            (scanned_paragraphs d)
   \<and> ((\<forall>kv\<in>set data. is_name (fst kv) \<and> CHR ''{'' \<notin> set (snd kv))
        \<and> list_all plain_seg segs \<and> run_text r = render segs \<longrightarrow>
        fst (replace_in_run data r) = r\<lparr>run_text := render (map (substitute data) segs)\<rparr>)
   \<and> fst (replace_in_run data r)
        = (if pattern_search (run_text r) then r\<lparr>run_text := replaced_text data (run_text r)\<rparr>
           else r)
   \<and> scanned_paragraphs (fst (replace_all d data False False))
        = map (\<lambda>p. if pattern_search (para_text p)
                    then set_para_text p (replaced_text data (para_text p)) else p)
            (scanned_paragraphs d)
   \<and> ((\<forall>kv\<in>set data. is_name (fst kv) \<and> CHR ''{'' \<notin> set (snd kv))
        \<and> list_all plain_seg segs \<and> para_text p = render segs \<longrightarrow>
        para_text (fst (replace_in_paragraph data False p)) = render (map (substitute data) segs))"
proof (intro conjI impI)
  show "fst (replace_in_run data r)
        = (if pattern_search (run_text r) then r\<lparr>run_text := replaced_text data (run_text r)\<rparr>
           else r)"
    by (simp add: replace_in_run_def fst_replace_keys)
  show "scanned_paragraphs (fst (replace_all d data False False))
        = map (\<lambda>p. if pattern_search (para_text p)
                    then set_para_text p (replaced_text data (para_text p)) else p)
            (scanned_paragraphs d)"
    by (simp add: scanned_paragraphs_replace_all replace_in_paragraph_plain)
  show "(\<forall>kv\<in>set data. is_name (fst kv) \<and> CHR ''{'' \<notin> set (snd kv))
        \<and> list_all plain_seg segs \<and> para_text p = render segs \<Longrightarrow>
        para_text (fst (replace_in_paragraph data False p)) = render (map (substitute data) segs)"
    using replace_in_paragraph_render by blast
  show "find_all_placeholders d - set (map fst data) \<noteq> {} \<Longrightarrow>
       replace_all d data True pf
         = (d, Inl (MissingData (find_all_placeholders d - set (map fst data))))"
    by (simp add: replace_all_def validate_data_def)
  show "find_all_placeholders d - set (map fst data) = {} \<Longrightarrow>
       replace_all d data True pf = replace_all d data False pf"
    by (simp add: replace_all_def validate_data_def)
  show "\<exists>d' c. replace_all d data False pf = (d', Inr c)"
    by (simp add: replace_all_nonstrict)
  show "\<forall>k\<in>set (map fst data). is_name k \<Longrightarrow>
        find_all_placeholders d - set (map fst data)
          \<subseteq> find_all_placeholders (fst (replace_all d data False pf))"
    using missing_names_stay by blast
  show "scanned_paragraphs (fst (replace_all d data False True))
        = map (\<lambda>p. p\<lparr>runs := map (\<lambda>r. fst (replace_in_run data r)) (runs p)\<rparr>)
            (scanned_paragraphs d)"
    by (rule scanned_paragraphs_preserving)
  show "(\<forall>kv\<in>set data. is_name (fst kv) \<and> CHR ''{'' \<notin> set (snd kv))
        \<and> list_all plain_seg segs \<and> run_text r = render segs \<Longrightarrow>
        fst (replace_in_run data r) = r\<lparr>run_text := render (map (substitute data) segs)\<rparr>"
    using replace_in_run_render by blast
qed

theorem replace_all_strict_atomic_witness:
  "replace_all strict_doc [(''name'', ''World'')] True True
     = (strict_doc, Inl (MissingData (find_all_placeholders strict_doc
                                       - set (map fst [(''name'', ''World'')]))))
   \<and> ''date'' \<in> find_all_placeholders (fst (replace_all strict_doc [(''name'', ''World'')] False True))
   \<and> fst (replace_in_run [(''name'', ''World'')]
              \<lparr>run_text = render [Lit ''Hello '', Tok ''name'', Lit '', today is '', Tok ''date''],
               run_fmt = plain_format\<rparr>)
      = \<lparr>run_text = ''Hello World, today is {{date}}'', run_fmt = plain_format\<rparr>
   \<and> para_text (fst (replace_in_paragraph [(''name'', ''World'')] False
                       (mk_para ''Hello {{name}}, today is {{date}}'')))
      = ''Hello World, today is {{date}}''"
proof -
  let ?data = "[(''name'', ''World'')]"
  let ?segs = "[Lit ''Hello '', Tok ''name'', Lit '', today is '', Tok ''date'']"
  let ?r = "\<lparr>run_text = render ?segs, run_fmt = plain_format\<rparr>"
  let ?p = "mk_para ''Hello {{name}}, today is {{date}}''"
  note t = replace_all_strict_atomic [where d = strict_doc and data = ?data and pf = True
      and segs = ?segs and r = ?r and p = ?p]
  have m: "''date'' \<in> find_all_placeholders strict_doc - set (map fst ?data)" by code_simp
  then have ne: "find_all_placeholders strict_doc - set (map fst ?data) \<noteq> {}" by blast
  have ks: "\<forall>k\<in>set (map fst ?data). is_name k" by (simp add: is_name_def name_char_def)
  have tp: "(\<forall>kv\<in>set ?data. is_name (fst kv) \<and> CHR ''{'' \<notin> set (snd kv))
        \<and> list_all plain_seg ?segs \<and> run_text ?r = render ?segs"
    by (simp add: is_name_def name_char_def)
  have tq: "(\<forall>kv\<in>set ?data. is_name (fst kv) \<and> CHR ''{'' \<notin> set (snd kv))
        \<and> list_all plain_seg ?segs \<and> para_text ?p = render ?segs"
    by (simp add: is_name_def name_char_def mk_para_def para_text_def token_def)
  have e: "render (map (substitute ?data) ?segs) = ''Hello World, today is {{date}}''"
    by (simp add: token_def)
  from t [THEN conjunct1, THEN mp, OF ne]
  have 1: "replace_all strict_doc ?data True True
     = (strict_doc, Inl (MissingData (find_all_placeholders strict_doc - set (map fst ?data))))" .
  from t [THEN conjunct2, THEN conjunct2, THEN conjunct2, THEN conjunct1, THEN mp, OF ks] m
  have 2: "''date'' \<in> find_all_placeholders (fst (replace_all strict_doc ?data False True))"
    by (rule subsetD)
  from t [THEN conjunct2, THEN conjunct2, THEN conjunct2, THEN conjunct2, THEN conjunct2,
      THEN conjunct1, THEN mp, OF tp]
  have 3: "fst (replace_in_run ?data ?r)
      = \<lparr>run_text = ''Hello World, today is {{date}}'', run_fmt = plain_format\<rparr>"
    by (simp add: token_def)
  from t [THEN conjunct2, THEN conjunct2, THEN conjunct2, THEN conjunct2, THEN conjunct2,
      THEN conjunct2, THEN conjunct2, THEN conjunct2, THEN mp, OF tq]
  have 4: "para_text (fst (replace_in_paragraph ?data False ?p))
      = ''Hello World, today is {{date}}''"
    by (simp only: e)
  from 1 2 3 4 show ?thesis by (intro conjI)
qed

text \<open>
  Claim C1 as stated, for every mapping, fails for a key that is not a name: with the
  key \<^verbatim>\<open>{a\<close> the token of the key is \<^verbatim>\<open>{{{a}}\<close>, and replacing it takes away the token
  \<^verbatim>\<open>{{a}}\<close> of the name \<^verbatim>\<open>a\<close>, which the scanner found and which has no value.
\<close>

theorem brace_key_consumes_unmatched_token:
  "''a'' \<in> find_all_placeholders brace_key_doc
   \<and> ''a'' \<notin> set (map fst [(''{a'', ''x'')])
   \<and> snd (replace_all brace_key_doc [(''{a'', ''x'')] False True) = Inr 1
   \<and> map para_text (paragraphs_of (body (fst (replace_all brace_key_doc [(''{a'', ''x'')] False True))))
      = [''x'']
   \<and> map para_text (paragraphs_of (body (fst (replace_all brace_key_doc [(''{a'', ''x'')] False False))))
      = [''x'']
   \<and> ''a'' \<notin> find_all_placeholders (fst (replace_all brace_key_doc [(''{a'', ''x'')] False True))"
  by code_simp
section \<open>The returned count (claim C4)\<close>

text \<open>
  Claim C4, as the code has it. In the format-preserving, non-strict mode the count
  returned by \<^verbatim>\<open>replace_all\<close> is the sum, over the runs of the scanned paragraphs, of
  what each run contributes, and every run is replaced by what \<^verbatim>\<open>_replace_in_runs\<close>
  makes of it. A run without a match of the pattern is left alone and contributes
  nothing. In a run with a match, \<^verbatim>\<open>str.replace\<close> is applied for each key in turn, and the
  run contributes the number of keys whose token is in its text when the key is
  reached: one per key, however often the token occurs, so at most the number of keys.
  For a mapping with one name the run contributes one when it holds the token and
  nothing otherwise. When the run is a template (literal pieces without an opening
  brace and tokens of names) and the mapping has distinct names as keys and values
  without an opening brace, every token of a key is replaced by its value and the run
  contributes the number of keys whose token occurs in it; for a document of such runs
  the count is the number of pairs of a run and a key whose token occurs in the run.
\<close>

theorem replace_all_count:
  "snd (replace_all d data False True)
     = Inr (sum_list (map (\<lambda>r. snd (replace_in_run data r))
                       (concat (map runs (scanned_paragraphs d)))))
   \<and> scanned_paragraphs (fst (replace_all d data False True))
        = map (\<lambda>p. p\<lparr>runs := map (\<lambda>r. fst (replace_in_run data r)) (runs p)\<rparr>)
            (scanned_paragraphs d)
   \<and> snd (replace_in_run data r) \<le> length data
   \<and> (is_name k \<longrightarrow>
        replace_in_run [(k, v)] r
          = (r\<lparr>run_text := py_replace (token k) v (run_text r)\<rparr>,
             if py_in (token k) (run_text r) then 1 else 0))
   \<and> (\<not> pattern_search (run_text r) \<longrightarrow> replace_in_run data r = (r, 0))
   \<and> (pattern_search (run_text r) \<longrightarrow>
        replace_in_run data r
          = (r\<lparr>run_text := replaced_text data (run_text r)\<rparr>,
             length (filter (\<lambda>i. py_in (token (fst (data ! i)))
                                     (replaced_text (take i data) (run_text r)))
                       [0..<length data])))
   \<and> ((\<forall>kv\<in>set data. is_name (fst kv) \<and> CHR ''{'' \<notin> set (snd kv))
        \<and> distinct (map fst data)
        \<and> list_all plain_seg segs \<and> run_text r = render segs \<longrightarrow>
        replace_in_run data r
          = (r\<lparr>run_text := render (map (substitute data) segs)\<rparr>,
             length (filter (\<lambda>kv. py_in (token (fst kv)) (run_text r)) data)))
   \<and> ((\<forall>kv\<in>set data. is_name (fst kv) \<and> CHR ''{'' \<notin> set (snd kv))
        \<and> distinct (map fst data)
        \<and> (\<forall>r\<in>set (concat (map runs (scanned_paragraphs d))).
              \<exists>segs. list_all plain_seg segs \<and> run_text r = render segs) \<longrightarrow>
        snd (replace_all d data False True)
          = Inr (sum_list (map (\<lambda>r. length (filter (\<lambda>kv. py_in (token (fst kv)) (run_text r)) data))
                            (concat (map runs (scanned_paragraphs d))))))"
proof (intro conjI impI)
  show "snd (replace_all d data False True)
     = Inr (sum_list (map (\<lambda>r. snd (replace_in_run data r))
                       (concat (map runs (scanned_paragraphs d)))))"
    by (rule count_preserving)
  show "scanned_paragraphs (fst (replace_all d data False True))
        = map (\<lambda>p. p\<lparr>runs := map (\<lambda>r. fst (replace_in_run data r)) (runs p)\<rparr>)
            (scanned_paragraphs d)"
    by (rule scanned_paragraphs_preserving)
  show "snd (replace_in_run data r) \<le> length data"
    by (simp add: replace_in_run_def snd_replace_keys_le)
  show "is_name k \<Longrightarrow>
        replace_in_run [(k, v)] r
          = (r\<lparr>run_text := py_replace (token k) v (run_text r)\<rparr>,
             if py_in (token k) (run_text r) then 1 else 0)"
    by (rule replace_in_run_single)
  show "\<not> pattern_search (run_text r) \<Longrightarrow> replace_in_run data r = (r, 0)"
    by (simp add: replace_in_run_def)
  show "pattern_search (run_text r) \<Longrightarrow>
        replace_in_run data r
          = (r\<lparr>run_text := replaced_text data (run_text r)\<rparr>,
             length (filter (\<lambda>i. py_in (token (fst (data ! i)))
                                     (replaced_text (take i data) (run_text r)))
                       [0..<length data]))"
    by (rule replace_in_run_pass)
  show "(\<forall>kv\<in>set data. is_name (fst kv) \<and> CHR ''{'' \<notin> set (snd kv))
        \<and> distinct (map fst data)
        \<and> list_all plain_seg segs \<and> run_text r = render segs \<Longrightarrow>
        replace_in_run data r
          = (r\<lparr>run_text := render (map (substitute data) segs)\<rparr>,
             length (filter (\<lambda>kv. py_in (token (fst kv)) (run_text r)) data))"
    by (intro replace_in_run_template) (elim conjE, assumption)+
next
  let ?rs = "concat (map runs (scanned_paragraphs d))"
  assume h: "(\<forall>kv\<in>set data. is_name (fst kv) \<and> CHR ''{'' \<notin> set (snd kv))
        \<and> distinct (map fst data)
        \<and> (\<forall>r\<in>set ?rs. \<exists>segs. list_all plain_seg segs \<and> run_text r = render segs)"
  then have d: "\<forall>kv\<in>set data. is_name (fst kv) \<and> CHR ''{'' \<notin> set (snd kv)"
    and dist: "distinct (map fst data)"
    and tpl: "\<forall>r\<in>set ?rs. \<exists>segs. list_all plain_seg segs \<and> run_text r = render segs"
    by blast+
  have "snd (replace_in_run data r)
      = length (filter (\<lambda>kv. py_in (token (fst kv)) (run_text r)) data)"
    if "r \<in> set ?rs" for r
  proof -
    from tpl that obtain segs where "list_all plain_seg segs" "run_text r = render segs" by blast
    from replace_in_run_template [OF d dist this] show ?thesis by simp
  qed
  then have "map (\<lambda>r. snd (replace_in_run data r)) ?rs
      = map (\<lambda>r. length (filter (\<lambda>kv. py_in (token (fst kv)) (run_text r)) data)) ?rs"
    by (intro map_cong refl)
  then show "snd (replace_all d data False True)
          = Inr (sum_list (map (\<lambda>r. length (filter (\<lambda>kv. py_in (token (fst kv)) (run_text r)) data))
                            ?rs))"
    by (simp only: count_preserving)
qed

theorem replace_all_count_witness:
  "replace_in_run [(''name'', ''World'')] \<lparr>run_text = ''Hello {{name}}'', run_fmt = plain_format\<rparr>
     = (\<lparr>run_text = ''Hello World'', run_fmt = plain_format\<rparr>, 1)
   \<and> snd (replace_all hello_doc [(''name'', ''World'')] False True) = Inr 1
   \<and> replace_in_run [(''a'', ''x''), (''b'', ''y'')]
         \<lparr>run_text = ''{{a}} {{b}}'', run_fmt = plain_format\<rparr>
     = (\<lparr>run_text = ''x y'', run_fmt = plain_format\<rparr>, 2)
   \<and> snd (replace_all two_keys_doc [(''a'', ''x''), (''b'', ''y'')] False True) = Inr 3"
proof -
  let ?r = "\<lparr>run_text = ''Hello {{name}}'', run_fmt = plain_format\<rparr>"
  note t = replace_all_count [of hello_doc "[(''name'', ''World'')]" ?r "''name''" "''World''"]
  have n: "is_name ''name''" by (simp add: is_name_def name_char_def)
  have a: "py_replace (token ''name'') ''World'' ''Hello {{name}}'' = ''Hello World''" by code_simp
  have b: "py_in (token ''name'') ''Hello {{name}}''" by code_simp
  from t [THEN conjunct2, THEN conjunct2, THEN conjunct2, THEN conjunct1, THEN mp, OF n]
  have 1: "replace_in_run [(''name'', ''World'')] ?r
     = (\<lparr>run_text = ''Hello World'', run_fmt = plain_format\<rparr>, 1)"
    using a b by simp
  have s: "concat (map runs (scanned_paragraphs hello_doc)) = [?r]"
    by (simp add: hello_doc_def mk_doc_def mk_para_def scanned_paragraphs_def)
  from t [THEN conjunct1] have 2: "snd (replace_all hello_doc [(''name'', ''World'')] False True) = Inr 1"
    by (simp add: s 1)
  let ?data = "[(''a'', ''x''), (''b'', ''y'')]"
  let ?r1 = "\<lparr>run_text = ''{{a}} {{b}}'', run_fmt = plain_format\<rparr>"
  let ?r2 = "\<lparr>run_text = ''{{a}} again {{a}}'', run_fmt = plain_format\<rparr>"
  let ?s1 = "[Tok ''a'', Lit '' '', Tok ''b'']"
  let ?s2 = "[Tok ''a'', Lit '' again '', Tok ''a'']"
  have dk: "\<forall>kv\<in>set ?data. is_name (fst kv) \<and> CHR ''{'' \<notin> set (snd kv)"
    by (simp add: is_name_def name_char_def)
  have p1: "list_all plain_seg ?s1 \<and> run_text ?r1 = render ?s1"
    by (simp add: is_name_def name_char_def token_def)
  have p2: "list_all plain_seg ?s2 \<and> run_text ?r2 = render ?s2"
    by (simp add: is_name_def name_char_def token_def)
  have c1: "length (filter (\<lambda>kv. py_in (token (fst kv)) ''{{a}} {{b}}'') ?data) = 2" by code_simp
  have c2: "length (filter (\<lambda>kv. py_in (token (fst kv)) ''{{a}} again {{a}}'') ?data) = 1"
    by code_simp
  have e1: "render (map (substitute ?data) ?s1) = ''x y''" by code_simp
  have h1: "(\<forall>kv\<in>set ?data. is_name (fst kv) \<and> CHR ''{'' \<notin> set (snd kv))
        \<and> distinct (map fst ?data) \<and> list_all plain_seg ?s1 \<and> run_text ?r1 = render ?s1"
    using dk p1 by simp
  from replace_all_count [where data = ?data and r = ?r1 and segs = ?s1,
      THEN conjunct2, THEN conjunct2, THEN conjunct2, THEN conjunct2, THEN conjunct2,
      THEN conjunct2, THEN conjunct1, THEN mp, OF h1]
  have 3: "replace_in_run ?data ?r1 = (\<lparr>run_text = ''x y'', run_fmt = plain_format\<rparr>, 2)"
    by (simp only: run.select_convs run.update_convs c1 e1)
  have s2: "concat (map runs (scanned_paragraphs two_keys_doc)) = [?r1, ?r2]"
    by (simp add: two_keys_doc_def mk_doc_def mk_para_def scanned_paragraphs_def)
  have tp: "\<forall>r\<in>set (concat (map runs (scanned_paragraphs two_keys_doc))).
              \<exists>segs. list_all plain_seg segs \<and> run_text r = render segs"
  proof
    fix r assume "r \<in> set (concat (map runs (scanned_paragraphs two_keys_doc)))"
    then have "r = ?r1 \<or> r = ?r2" unfolding s2 by simp
    then show "\<exists>segs. list_all plain_seg segs \<and> run_text r = render segs"
    proof
      assume "r = ?r1"
      with p1 show ?thesis by (intro exI [of _ ?s1]) (simp only:)
    next
      assume "r = ?r2"
      with p2 show ?thesis by (intro exI [of _ ?s2]) (simp only:)
    qed
  qed
  have dd: "distinct (map fst ?data)" by simp
  from dk dd tp
  have h2: "(\<forall>kv\<in>set ?data. is_name (fst kv) \<and> CHR ''{'' \<notin> set (snd kv))
        \<and> distinct (map fst ?data)
        \<and> (\<forall>r\<in>set (concat (map runs (scanned_paragraphs two_keys_doc))).
              \<exists>segs. list_all plain_seg segs \<and> run_text r = render segs)"
    by (intro conjI)
  from replace_all_count [where d = two_keys_doc and data = ?data,
      THEN conjunct2, THEN conjunct2, THEN conjunct2, THEN conjunct2, THEN conjunct2,
      THEN conjunct2, THEN conjunct2, THEN mp, OF h2]
  have 4: "snd (replace_all two_keys_doc ?data False True) = Inr 3"
    by (simp only: s2 list.map sum_list.Cons sum_list.Nil run.select_convs c1 c2) simp
  from 1 2 3 4 show ?thesis by (intro conjI)
qed

text \<open>
  Claim C4 as stated fails for a run with two occurrences of one token: both are
  replaced and the reported count is one.
\<close>

theorem two_occurrences_count_one:
  "snd (replace_all twice_doc [(''a'', ''x'')] False True) = Inr 1
   \<and> map para_text (paragraphs_of (body (fst (replace_all twice_doc [(''a'', ''x'')] False True))))
      = [''x and x'']"
  by code_simp
end
